theory Spec2Isabelle
  imports Main "HOL-Library.AList"
begin

section \<open>Python values used by the manager\<close>

text \<open>
  The manager of \<^verbatim>\<open>managers.py\<close> keeps its registries in Python dictionaries keyed by
  name. A dictionary is modelled as an association list in insertion order:
  \<^item> \<^verbatim>\<open>k in d\<close> is \<open>has_key k d\<close>;
  \<^item> \<^verbatim>\<open>d.get(k)\<close> is \<open>map_of d k\<close>;
  \<^item> \<^verbatim>\<open>d[k] = v\<close> is \<open>AList.update k v d\<close> (an existing key keeps its place, a new key
    goes to the end);
  \<^item> \<^verbatim>\<open>del d[k]\<close> is \<open>AList.delete k d\<close>.
\<close>

type_synonym ('k, 'v) dict = "('k \<times> 'v) list"

definition has_key :: "'k \<Rightarrow> ('k, 'v) dict \<Rightarrow> bool" where
  "has_key k d = (k \<in> set (map fst d))"

text \<open>Decimal rendering of a non-negative Python integer inside an f-string.\<close>

fun show_nat :: "nat \<Rightarrow> string" where
  "show_nat n = (if n < 10 then [''0123456789'' ! n]
                 else show_nat (n div 10) @ [''0123456789'' ! (n mod 10)])"

declare show_nat.simps [simp del]

text \<open>
  Truthiness of a value that is \<^verbatim>\<open>None\<close> or a string, as tested by \<^verbatim>\<open>if parent_name\<close>
  and \<^verbatim>\<open>while ancestor\<close>: \<^verbatim>\<open>None\<close> and the empty string are false.
\<close>

fun truthy :: "string option \<Rightarrow> bool" where
  "truthy None = False"
| "truthy (Some n) = (n \<noteq> [])"

section \<open>The manager state\<close>

record manager =
  sets :: "(string, string list) dict"
  set_positions :: "(string, int \<times> int) dict"
  set_colors :: "(string, int \<times> int \<times> int) dict"
  set_sizes :: "(string, int \<times> int) dict"
  set_transparency :: "(string, int) dict"
  set_parents :: "(string, string option) dict"
  background_image :: "string option"
  active_channels :: "(string, bool) dict"
  parent_groups :: "(string, string list) dict"
  group_positions :: "(string, int \<times> int) dict"
  group_colors :: "(string, int \<times> int \<times> int) dict"
  group_sizes :: "(string, int \<times> int) dict"
  group_transparency :: "(string, int) dict"

text \<open>The state built by \<^verbatim>\<open>__init__\<close>.\<close>

definition init :: manager where
  "init = \<lparr> sets = [], set_positions = [], set_colors = [], set_sizes = [],
      set_transparency = [], set_parents = [], background_image = None,
      active_channels = [(''tx'', True), (''ty'', True), (''tz'', True),
                         (''rx'', True), (''ry'', True), (''rz'', True)],
      parent_groups = [], group_positions = [], group_colors = [], group_sizes = [],
      group_transparency = [] \<rparr>"

text \<open>
  A mutator that gives up calls \<^verbatim>\<open>cmds.warning\<close> and returns \<^verbatim>\<open>False\<close> (or \<^verbatim>\<open>None\<close>).
  The failure value records which warning was issued:
  \<^item> \<open>NotFound n\<close>: "Set 'n' not found.", "Parent group 'n' not found.",
    "Child set 'n' not found." or "Parent set 'n' not found.";
  \<^item> \<open>NameCollision n\<close>: "Set named 'n' already exists." or
    "Parent group named 'n' already exists.";
  \<^item> \<open>CycleRejected p c\<close>: "Cannot set 'p' as parent of 'c' - would create circular
    reference.";
  \<^item> \<open>NothingSelected\<close>: "Nothing selected. Please select objects to create a set.";
  \<^item> \<open>NoValidObjects n\<close>: "No valid objects found in set 'n' or its children.";
  \<^item> \<open>InvalidFormat\<close>: "Invalid JSON format for sets.";
  \<^item> \<open>ImportFailed\<close>, \<open>ExportFailed\<close>: "Failed to import sets: ..." and
    "Failed to export sets: ...", issued by the \<^verbatim>\<open>except\<close> clauses;
  \<^item> \<open>ChannelFilteringError\<close>: "Error in channel filtering: ... Selecting objects instead.";
  \<^item> \<open>Quiet\<close>: \<^verbatim>\<open>False\<close> returned without a warning.
  Every operation returns its result together with the state it leaves behind.
\<close>

datatype failure =
    NotFound string
  | NameCollision string
  | CycleRejected string string
  | NothingSelected
  | NoValidObjects string
  | InvalidFormat
  | ImportFailed
  | ExportFailed
  | ChannelFilteringError
  | Quiet

section \<open>Parent pointers\<close>

text \<open>
  \<^verbatim>\<open>would_create_circular_reference\<close>: the loop
  \<^verbatim>\<open>while ancestor: if ancestor == child_name: return True; ancestor = self.set_parents.get(ancestor)\<close>.
  \<^verbatim>\<open>get\<close> gives \<^verbatim>\<open>None\<close> for a missing key and the stored value otherwise. The loop need
  not end, so the walk is a partial function: \<open>None\<close> is "does not return".
\<close>

definition parent_of :: "(string, string option) dict \<Rightarrow> string \<Rightarrow> string option" where
  "parent_of sp a = (case map_of sp a of None \<Rightarrow> None | Some p \<Rightarrow> p)"

partial_function (option) walk_ancestors ::
  "(string, string option) dict \<Rightarrow> string \<Rightarrow> string option \<Rightarrow> bool option" where
  "walk_ancestors sp child_name ancestor =
     (if truthy ancestor then
        (if ancestor = Some child_name then Some True
         else walk_ancestors sp child_name (parent_of sp (the ancestor)))
      else Some False)"

definition would_create_circular_reference ::
  "string \<Rightarrow> string \<Rightarrow> manager \<Rightarrow> bool option" where
  "would_create_circular_reference child_name new_parent_name s =
     walk_ancestors (set_parents s) child_name (Some new_parent_name)"

text \<open>
  \<^verbatim>\<open>set_parent\<close>: the parent name is a string or \<^verbatim>\<open>None\<close>. The outer \<open>option\<close> is
  \<open>None\<close> when the cycle check does not return.
\<close>

definition set_parent ::
  "string \<Rightarrow> string option \<Rightarrow> manager \<Rightarrow> ((failure + unit) \<times> manager) option" where
  "set_parent child_name parent_name s =
     (if \<not> has_key child_name (sets s) then Some (Inl (NotFound child_name), s)
      else if truthy parent_name \<and> \<not> has_key (the parent_name) (sets s)
        then Some (Inl (NotFound (the parent_name)), s)
      else if truthy parent_name then
        (case would_create_circular_reference child_name (the parent_name) s of
           None \<Rightarrow> None
         | Some True \<Rightarrow> Some (Inl (CycleRejected (the parent_name) child_name), s)
         | Some False \<Rightarrow>
             Some (Inr (), s\<lparr>set_parents := AList.update child_name parent_name (set_parents s)\<rparr>))
      else Some (Inr (), s\<lparr>set_parents := AList.update child_name parent_name (set_parents s)\<rparr>))"

text \<open>
  The parent-of relation stored in \<^verbatim>\<open>set_parents\<close>: \<open>(c, p)\<close> when the entry of \<open>c\<close>
  holds the name \<open>p\<close>. A set \<open>a\<close> is a descendant of \<open>b\<close> (and \<open>b\<close> an ancestor of \<open>a\<close>)
  when \<open>(a, b)\<close> is in its transitive closure.
\<close>

definition parent_rel :: "(string, string option) dict \<Rightarrow> (string \<times> string) set" where
  "parent_rel sp = {(c, p). map_of sp c = Some (Some p)}"

section \<open>Helpers shared by the mutators\<close>

text \<open>\<^verbatim>\<open>d[k]\<close> for a key the code has just checked to be present.\<close>

definition dict_at :: "('k, 'v) dict \<Rightarrow> 'k \<Rightarrow> 'v" where
  "dict_at d k = the (map_of d k)"

text \<open>
  The pattern \<^verbatim>\<open>if old in d: d[new] = d[old]; del d[old]\<close> of the two rename
  operations.
\<close>

definition move_key :: "'k \<Rightarrow> 'k \<Rightarrow> ('k, 'v) dict \<Rightarrow> ('k, 'v) dict" where
  "move_key old_name new_name d =
     (if has_key old_name d
      then AList.delete old_name (AList.update new_name (dict_at d old_name) d)
      else d)"

text \<open>
  The loop \<^verbatim>\<open>while set_name in self.sets: set_name = f"{name}_{counter}"; counter += 1\<close>
  that picks an unused name; \<open>ks\<close> are the keys in use. It ends because the names
  \<^verbatim>\<open>name_1\<close>, \<^verbatim>\<open>name_2\<close>, ... are pairwise different and the keys are finitely many:
  \<open>pending\<close>, the keys the loop can still run into, is the measure.
\<close>

definition pending :: "string list \<Rightarrow> string \<Rightarrow> nat \<Rightarrow> string set" where
  "pending ks name counter = {k \<in> set ks. \<exists>c\<ge>counter. k = name @ ''_'' @ show_nat c}"

function unique_name :: "string list \<Rightarrow> string \<Rightarrow> string \<Rightarrow> nat \<Rightarrow> string" where
  "unique_name ks name set_name counter =
     (if set_name \<in> set ks
      then unique_name ks name (name @ ''_'' @ show_nat counter) (counter + 1)
      else set_name)"
  by pat_completeness auto
termination unique_name
proof (relation "measures [\<lambda>(ks, name, cur, counter). card (pending ks name counter),
                           \<lambda>(ks, name, cur, counter). if cur \<in> set ks then 1 else 0]")
  show "wf (measures [\<lambda>(ks, name, cur, counter). card (pending ks name counter),
                      \<lambda>(ks, name, cur, counter). if cur \<in> set ks then 1 else 0])"
    by simp
next
  fix ks :: "string list" and name set_name :: string and counter :: nat
  assume cur: "set_name \<in> set ks"
  have nonempty: "show_nat n \<noteq> []" for n
    by (subst show_nat.simps) simp
  have digit: "(''0123456789'' ! i = ''0123456789'' ! j) = (i = j)" if "i < 10" "j < 10" for i j :: nat
    using that by (intro nth_eq_iff_index_eq) simp_all
  have few: "show_nat n = [''0123456789'' ! n]" if "n < 10" for n
    using that by (subst show_nat.simps) simp
  have many: "show_nat n = show_nat (n div 10) @ [''0123456789'' ! (n mod 10)]" if "\<not> n < 10" for n
    using that by (subst show_nat.simps) simp
  have inj: "show_nat m = show_nat n \<Longrightarrow> m = n" for m n
  proof (induction m arbitrary: n rule: show_nat.induct)
    case (1 m)
    show ?case
    proof (cases "m < 10")
      case True
      show ?thesis
      proof (cases "n < 10")
        case n: True
        then show ?thesis using "1.prems" True digit [of m n] by (simp add: few)
      next
        case False
        then show ?thesis using "1.prems" True nonempty [of "n div 10"] by (simp add: few many)
      qed
    next
      case False
      show ?thesis
      proof (cases "n < 10")
        case True
        then show ?thesis using "1.prems" False nonempty [of "m div 10"] by (simp add: few many)
      next
        case n: False
        from "1.prems" False n have a: "show_nat (m div 10) = show_nat (n div 10)"
          and b: "''0123456789'' ! (m mod 10) = ''0123456789'' ! (n mod 10)"
          by (simp_all add: many)
        from a have d: "m div 10 = n div 10" using "1.IH" [OF False] by simp
        from b have e: "m mod 10 = n mod 10" using digit [of "m mod 10" "n mod 10"] by simp
        show ?thesis using d e by (metis div_mult_mod_eq)
      qed
    qed
  qed
  let ?next = "name @ ''_'' @ show_nat counter"
  have sub: "pending ks name (counter + 1) \<subseteq> pending ks name counter"
    unfolding pending_def using Suc_leD by fastforce
  have miss: "?next \<notin> pending ks name (counter + 1)"
    by (auto simp: pending_def dest: inj)
  show "((ks, name, ?next, counter + 1), (ks, name, set_name, counter))
       \<in> measures [\<lambda>(ks, name, cur, counter). card (pending ks name counter),
                    \<lambda>(ks, name, cur, counter). if cur \<in> set ks then 1 else 0]"
  proof (cases "?next \<in> set ks")
    case True
    then have "?next \<in> pending ks name counter" by (auto simp: pending_def)
    then have "pending ks name (counter + 1) \<subset> pending ks name counter"
      using sub miss by blast
    moreover have "finite (pending ks name counter)" by (simp add: pending_def)
    ultimately have "card (pending ks name (counter + 1)) < card (pending ks name counter)"
      by (rule psubset_card_mono [rotated])
    then show ?thesis by simp
  next
    case False
    have "pending ks name counter \<subseteq> pending ks name (counter + 1)"
    proof
      fix k assume "k \<in> pending ks name counter"
      then obtain c where k: "k \<in> set ks" and c: "counter \<le> c"
        and e: "k = name @ ''_'' @ show_nat c"
        by (auto simp: pending_def)
      from k e False have "c \<noteq> counter" by auto
      with c have "counter + 1 \<le> c" by simp
      with k e show "k \<in> pending ks name (counter + 1)" unfolding pending_def by blast
    qed
    then have "pending ks name (counter + 1) = pending ks name counter" using sub by blast
    then show ?thesis using cur False by simp
  qed
qed

declare unique_name.simps [simp del]

text \<open>
  The offset position of a new entry: \<^verbatim>\<open>max(pos[0] ...) + 20\<close> and
  \<^verbatim>\<open>max(pos[1] ...) + 20\<close> over the positions on record, \<open>None\<close> when the
  dictionary is empty (the branch \<^verbatim>\<open>if self.set_positions\<close> is not taken).
\<close>

definition next_position :: "(string, int \<times> int) dict \<Rightarrow> (int \<times> int) option" where
  "next_position d =
     (case d of
        [] \<Rightarrow> None
      | e # es \<Rightarrow> Some (fold max (map (fst \<circ> snd) es) (fst (snd e)) + 20,
                       fold max (map (snd \<circ> snd) es) (snd (snd e)) + 20))"

section \<open>Parent groups\<close>

definition create_parent_group :: "string \<Rightarrow> manager \<Rightarrow> string \<times> manager" where
  "create_parent_group name s =
     (let group_name = unique_name (map fst (parent_groups s)) name name 1;
          pos = (case next_position (group_positions s) of
                   Some p \<Rightarrow> p
                 | None \<Rightarrow> (case next_position (set_positions s) of
                              Some p \<Rightarrow> p
                            | None \<Rightarrow> (20, 20)))
      in (group_name,
          s\<lparr>parent_groups := AList.update group_name [] (parent_groups s),
            group_positions := AList.update group_name pos (group_positions s),
            group_colors := AList.update group_name (100, 100, 60) (group_colors s),
            group_sizes := AList.update group_name (300, 200) (group_sizes s),
            group_transparency := AList.update group_name 180 (group_transparency s)\<rparr>))"

text \<open>
  \<^verbatim>\<open>for other_group, sets in self.parent_groups.items(): if set_name in sets: sets.remove(set_name)\<close>:
  \<^verbatim>\<open>list.remove\<close> deletes the first occurrence, which is \<open>remove1\<close>.
\<close>

definition remove_from_all_groups ::
  "string \<Rightarrow> (string, string list) dict \<Rightarrow> (string, string list) dict" where
  "remove_from_all_groups set_name groups = map (\<lambda>(g, members). (g, remove1 set_name members)) groups"

definition add_set_to_group :: "string \<Rightarrow> string \<Rightarrow> manager \<Rightarrow> (failure + unit) \<times> manager" where
  "add_set_to_group set_name group_name s =
     (if \<not> has_key set_name (sets s) then (Inl (NotFound set_name), s)
      else if \<not> has_key group_name (parent_groups s) then (Inl (NotFound group_name), s)
      else
        (let groups = remove_from_all_groups set_name (parent_groups s);
             members = dict_at groups group_name
         in (Inr (),
             s\<lparr>parent_groups :=
                 (if set_name \<notin> set members
                  then AList.update group_name (members @ [set_name]) groups
                  else groups)\<rparr>)))"

definition remove_set_from_group ::
  "string \<Rightarrow> string option \<Rightarrow> manager \<Rightarrow> (failure + unit) \<times> manager" where
  "remove_set_from_group set_name group_name s =
     (if \<not> has_key set_name (sets s) then (Inl (NotFound set_name), s)
      else
        (case group_name of
           Some g \<Rightarrow>
             (if \<not> has_key g (parent_groups s) then (Inl (NotFound g), s)
              else (Inr (),
                    s\<lparr>parent_groups :=
                        AList.update g (remove1 set_name (dict_at (parent_groups s) g))
                          (parent_groups s)\<rparr>))
         | None \<Rightarrow>
             (Inr (), s\<lparr>parent_groups := remove_from_all_groups set_name (parent_groups s)\<rparr>)))"

definition rename_parent_group :: "string \<Rightarrow> string \<Rightarrow> manager \<Rightarrow> (failure + unit) \<times> manager" where
  "rename_parent_group old_name new_name s =
     (if \<not> has_key old_name (parent_groups s) then (Inl (NotFound old_name), s)
      else if has_key new_name (parent_groups s) then (Inl (NameCollision new_name), s)
      else (Inr (),
            s\<lparr>parent_groups := move_key old_name new_name (parent_groups s),
              group_positions := move_key old_name new_name (group_positions s),
              group_colors := move_key old_name new_name (group_colors s),
              group_sizes := move_key old_name new_name (group_sizes s),
              group_transparency := move_key old_name new_name (group_transparency s)\<rparr>))"

definition delete_parent_group :: "string \<Rightarrow> manager \<Rightarrow> (failure + unit) \<times> manager" where
  "delete_parent_group name s =
     (if \<not> has_key name (parent_groups s) then (Inl (NotFound name), s)
      else (Inr (),
            s\<lparr>parent_groups := AList.delete name (parent_groups s),
              group_positions := AList.delete name (group_positions s),
              group_colors := AList.delete name (group_colors s),
              group_sizes := AList.delete name (group_sizes s),
              group_transparency := AList.delete name (group_transparency s)\<rparr>))"

definition update_group_position :: "string \<Rightarrow> int \<Rightarrow> int \<Rightarrow> manager \<Rightarrow> (failure + unit) \<times> manager" where
  "update_group_position name x y s =
     (if has_key name (parent_groups s)
      then (Inr (), s\<lparr>group_positions := AList.update name (x, y) (group_positions s)\<rparr>)
      else (Inl Quiet, s))"

definition update_group_size :: "string \<Rightarrow> int \<Rightarrow> int \<Rightarrow> manager \<Rightarrow> (failure + unit) \<times> manager" where
  "update_group_size name width height s =
     (if has_key name (parent_groups s)
      then (Inr (), s\<lparr>group_sizes := AList.update name (width, height) (group_sizes s)\<rparr>)
      else (Inl Quiet, s))"

definition update_group_color ::
  "string \<Rightarrow> int \<Rightarrow> int \<Rightarrow> int \<Rightarrow> manager \<Rightarrow> (failure + unit) \<times> manager" where
  "update_group_color name r g b s =
     (if has_key name (parent_groups s)
      then (Inr (), s\<lparr>group_colors := AList.update name (r, g, b) (group_colors s)\<rparr>)
      else (Inl Quiet, s))"

definition update_group_transparency :: "string \<Rightarrow> int \<Rightarrow> manager \<Rightarrow> (failure + unit) \<times> manager" where
  "update_group_transparency name transparency s =
     (if has_key name (parent_groups s)
      then (Inr (), s\<lparr>group_transparency := AList.update name transparency (group_transparency s)\<rparr>)
      else (Inl Quiet, s))"

section \<open>Selection sets\<close>

text \<open>
  \<^verbatim>\<open>create_set\<close> reads the host's current selection
  (\<^verbatim>\<open>cmds.ls(selection=True, long=True)\<close>), here the argument \<open>selection\<close>.
\<close>

definition create_set :: "string \<Rightarrow> string list \<Rightarrow> manager \<Rightarrow> (failure + string) \<times> manager" where
  "create_set name selection s =
     (if selection = [] then (Inl NothingSelected, s)
      else
        (let set_name = unique_name (map fst (sets s)) name name 1;
             pos = (case next_position (set_positions s) of Some p \<Rightarrow> p | None \<Rightarrow> (20, 20))
         in (Inr set_name,
             s\<lparr>sets := AList.update set_name selection (sets s),
               set_positions := AList.update set_name pos (set_positions s),
               set_colors := AList.update set_name (70, 70, 70) (set_colors s),
               set_sizes := AList.update set_name (200, 150) (set_sizes s),
               set_transparency := AList.update set_name 180 (set_transparency s),
               set_parents := AList.update set_name None (set_parents s)\<rparr>)))"

text \<open>
  \<^verbatim>\<open>rename_set\<close>. The two fix-up loops:
  \<^verbatim>\<open>for child_name, parent_name in self.set_parents.items(): if parent_name == old_name: self.set_parents[child_name] = new_name\<close>
  and
  \<^verbatim>\<open>for group_name, sets in self.parent_groups.items(): if old_name in sets: sets.remove(old_name); sets.append(new_name)\<close>.
\<close>

definition repoint_children ::
  "string \<Rightarrow> string option \<Rightarrow> (string, string option) dict \<Rightarrow> (string, string option) dict" where
  "repoint_children old_name new_parent sp =
     map (\<lambda>(child_name, parent_name).
            (child_name, if parent_name = Some old_name then new_parent else parent_name)) sp"

definition rename_in_groups ::
  "string \<Rightarrow> string \<Rightarrow> (string, string list) dict \<Rightarrow> (string, string list) dict" where
  "rename_in_groups old_name new_name groups =
     map (\<lambda>(g, members).
            (g, if old_name \<in> set members then remove1 old_name members @ [new_name]
                else members)) groups"

definition rename_set :: "string \<Rightarrow> string \<Rightarrow> manager \<Rightarrow> (failure + unit) \<times> manager" where
  "rename_set old_name new_name s =
     (if \<not> has_key old_name (sets s) then (Inl (NotFound old_name), s)
      else if has_key new_name (sets s) then (Inl (NameCollision new_name), s)
      else (Inr (),
            s\<lparr>sets := move_key old_name new_name (sets s),
              set_positions := move_key old_name new_name (set_positions s),
              set_colors := move_key old_name new_name (set_colors s),
              set_sizes := move_key old_name new_name (set_sizes s),
              set_transparency := move_key old_name new_name (set_transparency s),
              set_parents :=
                repoint_children old_name (Some new_name)
                  (move_key old_name new_name (set_parents s)),
              parent_groups := rename_in_groups old_name new_name (parent_groups s)\<rparr>))"

text \<open>
  \<^verbatim>\<open>delete_set\<close>. Its last step calls \<^verbatim>\<open>self.remove_set_from_group(name)\<close> on the
  state in which \<^verbatim>\<open>name\<close> has already been deleted from \<^verbatim>\<open>self.sets\<close>; the result of
  that call is ignored.
\<close>

definition delete_set :: "string \<Rightarrow> manager \<Rightarrow> (failure + unit) \<times> manager" where
  "delete_set name s =
     (if has_key name (sets s) then
        (let s1 = s\<lparr>sets := AList.delete name (sets s),
                    set_positions := AList.delete name (set_positions s),
                    set_colors := AList.delete name (set_colors s),
                    set_sizes := AList.delete name (set_sizes s),
                    set_transparency := AList.delete name (set_transparency s),
                    set_parents :=
                      repoint_children name None (AList.delete name (set_parents s))\<rparr>
         in (Inr (), snd (remove_set_from_group name None s1)))
      else (Inl Quiet, s))"

definition update_set_position :: "string \<Rightarrow> int \<Rightarrow> int \<Rightarrow> manager \<Rightarrow> (failure + unit) \<times> manager" where
  "update_set_position name x y s =
     (if has_key name (sets s)
      then (Inr (), s\<lparr>set_positions := AList.update name (x, y) (set_positions s)\<rparr>)
      else (Inl Quiet, s))"

definition update_set_size :: "string \<Rightarrow> int \<Rightarrow> int \<Rightarrow> manager \<Rightarrow> (failure + unit) \<times> manager" where
  "update_set_size name width height s =
     (if has_key name (sets s)
      then (Inr (), s\<lparr>set_sizes := AList.update name (width, height) (set_sizes s)\<rparr>)
      else (Inl Quiet, s))"

definition update_set_color ::
  "string \<Rightarrow> int \<Rightarrow> int \<Rightarrow> int \<Rightarrow> manager \<Rightarrow> (failure + unit) \<times> manager" where
  "update_set_color name r g b s =
     (if has_key name (sets s)
      then (Inr (), s\<lparr>set_colors := AList.update name (r, g, b) (set_colors s)\<rparr>)
      else (Inl Quiet, s))"

definition update_set_transparency :: "string \<Rightarrow> int \<Rightarrow> manager \<Rightarrow> (failure + unit) \<times> manager" where
  "update_set_transparency name transparency s =
     (if has_key name (sets s)
      then (Inr (), s\<lparr>set_transparency := AList.update name transparency (set_transparency s)\<rparr>)
      else (Inl Quiet, s))"

definition update_channel_state :: "string \<Rightarrow> bool \<Rightarrow> manager \<Rightarrow> (failure + unit) \<times> manager" where
  "update_channel_state channel state s =
     (if has_key channel (active_channels s)
      then (Inr (), s\<lparr>active_channels := AList.update channel state (active_channels s)\<rparr>)
      else (Inl Quiet, s))"

definition set_background_image :: "string \<Rightarrow> manager \<Rightarrow> (failure + unit) \<times> manager" where
  "set_background_image image_path s = (Inr (), s\<lparr>background_image := Some image_path\<rparr>)"

section \<open>Selecting in the host scene\<close>

text \<open>
  The host application is outside the repository. What the manager uses of it is taken
  as parameters: \<open>obj_exists\<close> is \<^verbatim>\<open>cmds.objExists\<close>, \<open>select_raises xs\<close> says
  whether \<^verbatim>\<open>cmds.select(xs, replace=True)\<close> raises, and the remaining fields are the file
  accesses of export and import. The scene keeps the current selection and the
  feedback shown to the user (\<^verbatim>\<open>cmds.warning\<close> and \<^verbatim>\<open>cmds.inViewMessage\<close>).
\<close>

datatype image_read = NoImage | Unreadable | Payload string

record bg_image =
  img_data :: string
  img_format :: string
  img_path :: string

record host =
  obj_exists :: "string \<Rightarrow> bool"
  select_raises :: "string list \<Rightarrow> bool"
  writable :: "string \<Rightarrow> bool"
  image_file :: "string \<Rightarrow> image_read"
  image_format :: "string \<Rightarrow> string"
  restore_image :: "string \<Rightarrow> bg_image \<Rightarrow> string option"

datatype message = Warning failure | InViewMessage string

record scene =
  selection :: "string list"
  feedback :: "message list"








section \<open>Export and import\<close>

text \<open>
  The exported file holds one JSON object. A document is that object with its values
  typed as \<^verbatim>\<open>export_sets\<close> writes them; a key that is missing is \<open>None\<close>
  (\<^verbatim>\<open>imported_data.get(key, {})\<close> then gives the empty dictionary). Three values may
  also be ill-typed, each raising at the first statement that uses it:
  \<^item> the value of \<^verbatim>\<open>"sets"\<close> or of \<^verbatim>\<open>"channels"\<close> may be no JSON object (a number, a
    string, a list, a truth value or \<^verbatim>\<open>null\<close>), which has no \<^verbatim>\<open>items\<close> method;
    \<open>NotAnObject\<close> carries the truth value Python gives it, which the test
    \<^verbatim>\<open>if imported_channels:\<close> reads;
  \<^item> the value of a set may be one that \<^verbatim>\<open>for obj in objects\<close> cannot iterate over (a
    number, a truth value or \<^verbatim>\<open>null\<close>).

  A path holds no file (\<^verbatim>\<open>open\<close> raises), text that \<^verbatim>\<open>json.load\<close> rejects, a JSON
  value that is not an object, or a document.
\<close>

datatype 'a json_field = NotAnObject bool | Object 'a

datatype 'a json_array = NotIterable | Array 'a

record document =
  doc_sets :: "(string, string list json_array) dict json_field option"
  doc_positions :: "(string, int \<times> int) dict option"
  doc_colors :: "(string, int \<times> int \<times> int) dict option"
  doc_sizes :: "(string, int \<times> int) dict option"
  doc_transparency :: "(string, int) dict option"
  doc_parents :: "(string, string option) dict option"
  doc_channels :: "(string, bool) dict json_field option"
  doc_background_image :: "bg_image option"
  doc_parent_groups :: "(string, string list) dict option"
  doc_group_positions :: "(string, int \<times> int) dict option"
  doc_group_colors :: "(string, int \<times> int \<times> int) dict option"
  doc_group_sizes :: "(string, int \<times> int) dict option"
  doc_group_transparency :: "(string, int) dict option"

datatype file_content = NotJson | NotADict | Dict document

type_synonym filesystem = "string \<Rightarrow> file_content option"

definition export_data :: "manager \<Rightarrow> bg_image option \<Rightarrow> document" where
  "export_data s embedded =
     \<lparr> doc_sets = Some (Object (map (\<lambda>(name, objects). (name, Array objects)) (sets s))),
       doc_positions = Some (set_positions s),
       doc_colors = Some (set_colors s),
       doc_sizes = Some (set_sizes s),
       doc_transparency = Some (set_transparency s),
       doc_parents = Some (set_parents s),
       doc_channels = Some (Object (active_channels s)),
       doc_background_image = embedded,
       doc_parent_groups = Some (parent_groups s),
       doc_group_positions = Some (group_positions s),
       doc_group_colors = Some (group_colors s),
       doc_group_sizes = Some (group_sizes s),
       doc_group_transparency = Some (group_transparency s) \<rparr>"

text \<open>
  \<^verbatim>\<open>export_sets\<close>: the background image is read first (when the path is set and
  exists), then the file is written; an exception of either step is caught and the
  method returns \<^verbatim>\<open>False\<close>.
\<close>

definition export_sets ::
  "host \<Rightarrow> string \<Rightarrow> manager \<Rightarrow> filesystem \<Rightarrow> (failure + unit) \<times> filesystem" where
  "export_sets h file_path s fs =
     (case (if truthy (background_image s) then image_file h (the (background_image s))
            else NoImage) of
        Unreadable \<Rightarrow> (Inl ExportFailed, fs)
      | NoImage \<Rightarrow>
          (if writable h file_path
           then (Inr (), fs(file_path \<mapsto> Dict (export_data s None)))
           else (Inl ExportFailed, fs))
      | Payload b \<Rightarrow>
          (if writable h file_path
           then (Inr (),
                 fs(file_path \<mapsto> Dict (export_data s
                   (Some \<lparr> img_data = b,
                           img_format = image_format h (the (background_image s)),
                           img_path = the (background_image s) \<rparr>))))
           else (Inl ExportFailed, fs)))"

definition or_empty :: "('k, 'v) dict option \<Rightarrow> ('k, 'v) dict" where
  "or_empty field = (case field of None \<Rightarrow> [] | Some d \<Rightarrow> d)"

text \<open>
  \<^verbatim>\<open>imported[name] if name in imported else default\<close>.
\<close>

definition get_or :: "('k, 'v) dict \<Rightarrow> 'k \<Rightarrow> 'v \<Rightarrow> 'v" where
  "get_or d k dflt = (case map_of d k of Some v \<Rightarrow> v | None \<Rightarrow> dflt)"

definition import_channels :: "(string, bool) dict \<Rightarrow> (string, bool) dict \<Rightarrow> (string, bool) dict" where
  "import_channels imported_channels channels =
     fold (\<lambda>(channel, state) acc.
             if has_key channel acc then AList.update channel state acc else acc)
          imported_channels channels"

text \<open>
  The block under \<^verbatim>\<open>if imported_channels:\<close>. A missing key, an empty object and any
  other value that Python takes for false skip it; a value that is taken for true and
  is no object raises at \<^verbatim>\<open>imported_channels.items()\<close>, which is \<open>None\<close> here.
\<close>

definition update_channels ::
  "(string, bool) dict json_field option \<Rightarrow> (string, bool) dict \<Rightarrow> (string, bool) dict option" where
  "update_channels field channels =
     (case field of
        None \<Rightarrow> Some channels
      | Some (NotAnObject truth) \<Rightarrow> if truth then None else Some channels
      | Some (Object imported_channels) \<Rightarrow> Some (import_channels imported_channels channels))"

definition clear_registries :: "manager \<Rightarrow> manager" where
  "clear_registries s =
     s\<lparr>sets := [], set_positions := [], set_colors := [], set_sizes := [],
       set_transparency := [], set_parents := [], parent_groups := [],
       group_positions := [], group_colors := [], group_sizes := [],
       group_transparency := []\<rparr>"

text \<open>One round of the loop \<^verbatim>\<open>for name, objects in imported_sets.items()\<close>.\<close>

definition import_one_set :: "host \<Rightarrow> document \<Rightarrow> string \<times> string list \<Rightarrow> manager \<Rightarrow> manager" where
  "import_one_set h d entry s =
     (let name = fst entry;
          valid_objects = filter (obj_exists h) (snd entry)
      in if valid_objects \<noteq> [] then
           (let sets' = AList.update name valid_objects (sets s)
            in s\<lparr>sets := sets',
                 set_positions :=
                   AList.update name
                     (get_or (or_empty (doc_positions d)) name (20, 20 + int (length sets') * 30))
                     (set_positions s),
                 set_colors :=
                   AList.update name (get_or (or_empty (doc_colors d)) name (70, 70, 70))
                     (set_colors s),
                 set_sizes :=
                   AList.update name (get_or (or_empty (doc_sizes d)) name (200, 150))
                     (set_sizes s),
                 set_transparency :=
                   AList.update name (get_or (or_empty (doc_transparency d)) name 180)
                     (set_transparency s)\<rparr>)
         else s)"

text \<open>
  The loop \<^verbatim>\<open>for name, objects in imported_sets.items()\<close>. It stops at the first set
  whose value cannot be iterated over: the comprehension raises, and the sets imported
  so far stay.
\<close>

fun import_all_sets ::
  "host \<Rightarrow> document \<Rightarrow> (string, string list json_array) dict \<Rightarrow> manager
     \<Rightarrow> (failure + unit) \<times> manager" where
  "import_all_sets h d [] s = (Inr (), s)"
| "import_all_sets h d ((name, NotIterable) # rest) s = (Inl ImportFailed, s)"
| "import_all_sets h d ((name, Array objects) # rest) s =
     import_all_sets h d rest (import_one_set h d (name, objects) s)"

text \<open>One round of the loop \<^verbatim>\<open>for name, parent in imported_parents.items()\<close>.\<close>

definition import_one_parent :: "string \<times> string option \<Rightarrow> manager \<Rightarrow> manager" where
  "import_one_parent entry s =
     (let name = fst entry; parent = snd entry
      in if has_key name (sets s) \<and> (parent = None \<or> has_key (the parent) (sets s))
         then s\<lparr>set_parents := AList.update name parent (set_parents s)\<rparr>
         else s)"

text \<open>One round of the loop \<^verbatim>\<open>for name, sets in imported_parent_groups.items()\<close>.\<close>

definition import_one_group :: "document \<Rightarrow> string \<times> string list \<Rightarrow> manager \<Rightarrow> manager" where
  "import_one_group d entry s =
     (let name = fst entry;
          valid_sets = filter (\<lambda>set_name. has_key set_name (sets s)) (snd entry);
          groups' = AList.update name valid_sets (parent_groups s)
      in s\<lparr>parent_groups := groups',
           group_positions :=
             AList.update name
               (get_or (or_empty (doc_group_positions d)) name
                  (20, 20 + int (length groups') * 30))
               (group_positions s),
           group_colors :=
             AList.update name (get_or (or_empty (doc_group_colors d)) name (100, 100, 60))
               (group_colors s),
           group_sizes :=
             AList.update name (get_or (or_empty (doc_group_sizes d)) name (300, 200))
               (group_sizes s),
           group_transparency :=
             AList.update name (get_or (or_empty (doc_group_transparency d)) name 180)
               (group_transparency s)\<rparr>)"

text \<open>
  The block that writes the embedded image back to disk has a \<^verbatim>\<open>try\<close> of its own;
  \<open>restore_image\<close> of the host gives the path written, or \<open>None\<close> when that block
  raised.
\<close>

definition import_background :: "host \<Rightarrow> string \<Rightarrow> document \<Rightarrow> manager \<Rightarrow> manager" where
  "import_background h file_path d s =
     (case doc_background_image d of
        None \<Rightarrow> s
      | Some embedded \<Rightarrow>
          (case restore_image h file_path embedded of
             None \<Rightarrow> s
           | Some p \<Rightarrow> s\<lparr>background_image := Some p\<rparr>))"

text \<open>
  \<^verbatim>\<open>import_sets\<close>. Every exception is caught by the outer \<^verbatim>\<open>except\<close>, which returns
  \<^verbatim>\<open>False\<close> with the state as it is at that moment: unchanged when
  \<^verbatim>\<open>imported_channels.items()\<close> raises, since the registries are cleared after it;
  cleared when \<^verbatim>\<open>imported_sets.items()\<close> raises; cleared and partly filled when the
  loop over the sets raises.
\<close>

definition import_sets ::
  "host \<Rightarrow> string \<Rightarrow> manager \<Rightarrow> filesystem \<Rightarrow> (failure + unit) \<times> manager" where
  "import_sets h file_path s fs =
     (case fs file_path of
        None \<Rightarrow> (Inl ImportFailed, s)
      | Some NotJson \<Rightarrow> (Inl ImportFailed, s)
      | Some NotADict \<Rightarrow> (Inl InvalidFormat, s)
      | Some (Dict d) \<Rightarrow>
          (case doc_sets d of
             None \<Rightarrow> (Inl InvalidFormat, s)
           | Some imported \<Rightarrow>
               (case update_channels (doc_channels d) (active_channels s) of
                  None \<Rightarrow> (Inl ImportFailed, s)
                | Some channels \<Rightarrow>
                    (let s2 = clear_registries (s\<lparr>active_channels := channels\<rparr>)
                     in case imported of
                          NotAnObject truth \<Rightarrow> (Inl ImportFailed, s2)
                        | Object imported_sets \<Rightarrow>
                            (case import_all_sets h d imported_sets s2 of
                               (Inl e, s3) \<Rightarrow> (Inl e, s3)
                             | (Inr u, s3) \<Rightarrow>
                                 (Inr (),
                                  import_background h file_path d
                                    (fold (import_one_group d) (or_empty (doc_parent_groups d))
                                       (fold import_one_parent (or_empty (doc_parents d))
                                          s3))))))))"

section \<open>The operations as one step function\<close>

text \<open>
  Every mutator of the manager, with its arguments; \<open>exec\<close> runs one and gives the
  state it leaves (\<open>None\<close> when \<^verbatim>\<open>set_parent\<close> does not return).
\<close>

datatype operation =
    CreateParentGroup string
  | AddSetToGroup string string
  | RemoveSetFromGroup string "string option"
  | RenameParentGroup string string
  | DeleteParentGroup string
  | UpdateGroupPosition string int int
  | UpdateGroupSize string int int
  | UpdateGroupColor string int int int
  | UpdateGroupTransparency string int
  | CreateSet string "string list"
  | RenameSet string string
  | DeleteSet string
  | SetParent string "string option"
  | UpdateSetPosition string int int
  | UpdateSetSize string int int
  | UpdateSetColor string int int int
  | UpdateSetTransparency string int
  | UpdateChannelState string bool
  | SetBackgroundImage string
  | ImportSets string filesystem

fun exec :: "host \<Rightarrow> operation \<Rightarrow> manager \<Rightarrow> manager option" where
  "exec h (CreateParentGroup name) s = Some (snd (create_parent_group name s))"
| "exec h (AddSetToGroup set_name group_name) s = Some (snd (add_set_to_group set_name group_name s))"
| "exec h (RemoveSetFromGroup set_name group_name) s =
     Some (snd (remove_set_from_group set_name group_name s))"
| "exec h (RenameParentGroup old_name new_name) s = Some (snd (rename_parent_group old_name new_name s))"
| "exec h (DeleteParentGroup name) s = Some (snd (delete_parent_group name s))"
| "exec h (UpdateGroupPosition name x y) s = Some (snd (update_group_position name x y s))"
| "exec h (UpdateGroupSize name w ht) s = Some (snd (update_group_size name w ht s))"
| "exec h (UpdateGroupColor name r g b) s = Some (snd (update_group_color name r g b s))"
| "exec h (UpdateGroupTransparency name a) s = Some (snd (update_group_transparency name a s))"
| "exec h (CreateSet name sel) s = Some (snd (create_set name sel s))"
| "exec h (RenameSet old_name new_name) s = Some (snd (rename_set old_name new_name s))"
| "exec h (DeleteSet name) s = Some (snd (delete_set name s))"
| "exec h (SetParent child_name parent_name) s = map_option snd (set_parent child_name parent_name s)"
| "exec h (UpdateSetPosition name x y) s = Some (snd (update_set_position name x y s))"
| "exec h (UpdateSetSize name w ht) s = Some (snd (update_set_size name w ht s))"
| "exec h (UpdateSetColor name r g b) s = Some (snd (update_set_color name r g b s))"
| "exec h (UpdateSetTransparency name a) s = Some (snd (update_set_transparency name a s))"
| "exec h (UpdateChannelState channel state) s = Some (snd (update_channel_state channel state s))"
| "exec h (SetBackgroundImage image_path) s = Some (snd (set_background_image image_path s))"
| "exec h (ImportSets file_path fs) s = Some (snd (import_sets h file_path s fs))"

section \<open>Conditions of the theorems and example inputs\<close>

text \<open>
  The predicates in which the theorems below are stated, and the concrete states,
  hosts and files at which they are instantiated, grouped by topic.
\<close>

subsection \<open>Example states\<close>

text \<open>
  States reached from \<open>init\<close> through the manager's own operations, used as concrete
  inputs below: a manager holding one set with the empty name; one holding the sets
  \<open>A\<close> and \<open>B\<close>; and the latter after \<^verbatim>\<open>set_parent("B", "A")\<close>.
\<close>

definition empty_named :: manager where
  "empty_named = snd (create_set [] [''pCube1''] init)"

definition two_sets :: manager where
  "two_sets = snd (create_set ''B'' [''pSphere1''] (snd (create_set ''A'' [''pCube1''] init)))"

definition nested_pair :: manager where
  "nested_pair = snd (the (set_parent ''B'' (Some ''A'') two_sets))"

subsection \<open>The forest invariant\<close>

text \<open>
  The parent pointers form a forest when no set is its own ancestor. \<open>keeps_forest\<close>
  is the side condition under which an operation is shown to keep the forest:
  \<^item> \<^verbatim>\<open>set_parent\<close> with a parent: the child is not the empty name and the empty name
    has no entry in \<^verbatim>\<open>set_parents\<close>;
  \<^item> \<^verbatim>\<open>rename_set\<close>: the new name occurs nowhere in \<^verbatim>\<open>set_parents\<close>;
  \<^item> \<^verbatim>\<open>import_sets\<close>: the parent pointers listed in the file have no cycle.
\<close>

definition forest :: "manager \<Rightarrow> bool" where
  "forest s = acyclic (parent_rel (set_parents s))"

definition file_parent_rel :: "filesystem \<Rightarrow> string \<Rightarrow> (string \<times> string) set" where
  "file_parent_rel fs file_path =
     (case fs file_path of
        Some (Dict d) \<Rightarrow> {(c, p). (c, Some p) \<in> set (or_empty (doc_parents d))}
      | _ \<Rightarrow> {})"

fun keeps_forest :: "operation \<Rightarrow> manager \<Rightarrow> bool" where
  "keeps_forest (SetParent child_name parent_name) s =
     (parent_name = None \<or> (child_name \<noteq> [] \<and> \<not> has_key [] (set_parents s)))"
| "keeps_forest (RenameSet old_name new_name) s =
     (\<not> has_key new_name (set_parents s) \<and> Some new_name \<notin> set (map snd (set_parents s)))"
| "keeps_forest (ImportSets file_path fs) s = acyclic (file_parent_rel fs file_path)"
| "keeps_forest _ s = True"

text \<open>A host in which every object exists and no call fails, and a file whose parent
  pointers form a cycle.\<close>

definition all_exist :: host where
  "all_exist = \<lparr> obj_exists = (\<lambda>_. True), select_raises = (\<lambda>_. False),
      writable = (\<lambda>_. True), image_file = (\<lambda>_. NoImage), image_format = (\<lambda>_. []),
      restore_image = (\<lambda>_ _. None) \<rparr>"

definition cyclic_doc :: document where
  "cyclic_doc = (export_data init None)
     \<lparr> doc_sets := Some (Object [(''A'', Array [''pCube1'']), (''B'', Array [''pSphere1''])]),
       doc_parents := Some [(''A'', Some ''B''), (''B'', Some ''A'')] \<rparr>"

subsection \<open>Group membership\<close>

text \<open>
  \<open>grouped\<close> lists the members of all groups, one after the other. A state has single
  membership when no set name occurs twice in that list: no set is in two groups or
  twice in one. \<open>groups_of\<close> are the groups that list a set.
  \<open>keeps_single_membership\<close> is the side condition under which an operation is shown
  to keep single membership:
  \<^item> \<^verbatim>\<open>rename_set\<close>: the new name is in no group list;
  \<^item> \<^verbatim>\<open>import_sets\<close>: the file's groups have single membership (and, as a JSON
    object read by \<^verbatim>\<open>json.load\<close>, no key twice).
\<close>

definition grouped :: "(string, string list) dict \<Rightarrow> string list" where
  "grouped groups = concat (map snd groups)"

definition single_membership :: "manager \<Rightarrow> bool" where
  "single_membership s = distinct (grouped (parent_groups s))"

definition groups_of :: "string \<Rightarrow> manager \<Rightarrow> string list" where
  "groups_of set_name s =
     map fst (filter (\<lambda>(g, members). set_name \<in> set members) (parent_groups s))"

fun keeps_single_membership :: "operation \<Rightarrow> manager \<Rightarrow> bool" where
  "keeps_single_membership (RenameSet old_name new_name) s =
     (new_name \<notin> set (grouped (parent_groups s)))"
| "keeps_single_membership (ImportSets file_path fs) s =
     (case fs file_path of
        Some (Dict d) \<Rightarrow>
          distinct (map fst (or_empty (doc_parent_groups d))) \<and>
          distinct (grouped (or_empty (doc_parent_groups d)))
      | _ \<Rightarrow> True)"
| "keeps_single_membership _ s = True"

text \<open>
  A manager with the set \<open>A\<close> and the empty groups \<open>G1\<close> and \<open>G2\<close>, reached from
  \<open>init\<close>, and a file that lists \<open>A\<close> in both groups.
\<close>

definition one_set_two_groups :: manager where
  "one_set_two_groups =
     snd (create_parent_group ''G2'' (snd (create_parent_group ''G1''
       (snd (create_set ''A'' [''pCube1''] init)))))"

definition shared_doc :: document where
  "shared_doc = (export_data init None)
     \<lparr> doc_sets := Some (Object [(''A'', Array [''pCube1''])]),
       doc_parent_groups := Some [(''G1'', [''A'']), (''G2'', [''A''])] \<rparr>"

text \<open>The manager after importing that file.\<close>

definition in_two_groups :: manager where
  "in_two_groups =
     snd (import_sets all_exist ''sets.json'' init [''sets.json'' \<mapsto> Dict shared_doc])"

text \<open>
  \<^verbatim>\<open>add_set_to_group\<close> removes one occurrence of the name from every list
  (\<^verbatim>\<open>sets.remove(set_name)\<close>), so what it leaves depends on how often a list holds
  the name: \<open>listed_at_most n\<close> says that no group list holds it more than \<open>n\<close>
  times. The manager \<open>thrice_listed\<close> is the one after importing a file whose group
  \<open>G1\<close> lists \<open>A\<close> three times, next to the empty groups \<open>G2\<close> and \<open>G3\<close>.
\<close>

definition listed_at_most :: "nat \<Rightarrow> string \<Rightarrow> manager \<Rightarrow> bool" where
  "listed_at_most n set_name s =
     list_all (\<lambda>(g, members). count_list members set_name \<le> n) (parent_groups s)"

definition thrice_doc :: document where
  "thrice_doc = (export_data init None)
     \<lparr> doc_sets := Some (Object [(''A'', Array [''pCube1''])]),
       doc_parent_groups := Some [(''G1'', [''A'', ''A'', ''A'']), (''G2'', []), (''G3'', [])] \<rparr>"

definition thrice_listed :: manager where
  "thrice_listed =
     snd (import_sets all_exist ''sets.json'' init [''sets.json'' \<mapsto> Dict thrice_doc])"

subsection \<open>Deleting a set that is in a group\<close>

text \<open>The manager of \<open>one_set_two_groups\<close> after \<^verbatim>\<open>add_set_to_group("A", "G1")\<close>.\<close>

definition grouped_set :: manager where
  "grouped_set = snd (add_set_to_group ''A'' ''G1'' one_set_two_groups)"

subsection \<open>Names that are taken\<close>


subsection \<open>Renaming a set\<close>

text \<open>
  Two conditions on the state. The registries are consistent when every key of the
  position, colour, size, transparency and parent dictionaries is the name of a set.
  A set is listed once when no group list holds its name more than once.
\<close>

definition sub_keys :: "('k, 'a) dict \<Rightarrow> ('k, 'b) dict \<Rightarrow> bool" where
  "sub_keys d e = (set (map fst d) \<subseteq> set (map fst e))"

definition registries_consistent :: "manager \<Rightarrow> bool" where
  "registries_consistent s =
     (sub_keys (set_positions s) (sets s) \<and>
      sub_keys (set_colors s) (sets s) \<and>
      sub_keys (set_sizes s) (sets s) \<and>
      sub_keys (set_transparency s) (sets s) \<and>
      sub_keys (set_parents s) (sets s))"

definition listed_once :: "string \<Rightarrow> manager \<Rightarrow> bool" where
  "listed_once set_name s =
     list_all (\<lambda>(g, members). count_list members set_name \<le> 1) (parent_groups s)"

text \<open>
  The manager of \<open>nested_pair\<close> with \<open>A\<close> in a group \<open>G1\<close>; and the manager after
  importing a file whose group \<open>G1\<close> lists \<open>A\<close> twice.
\<close>

definition family_in_group :: manager where
  "family_in_group =
     snd (add_set_to_group ''A'' ''G1'' (snd (create_parent_group ''G1'' nested_pair)))"

definition dup_doc :: document where
  "dup_doc = (export_data init None)
     \<lparr> doc_sets := Some (Object [(''A'', Array [''pCube1''])]),
       doc_parent_groups := Some [(''G1'', [''A'', ''A''])] \<rparr>"

definition dup_state :: manager where
  "dup_state = snd (import_sets all_exist ''sets.json'' init [''sets.json'' \<mapsto> Dict dup_doc])"

subsection \<open>Export followed by import\<close>

text \<open>
  The conditions of the round trip. The scene is unmodified when every object on
  record exists. The parent pointers resolve when every entry of \<^verbatim>\<open>set_parents\<close>
  belongs to a set and holds \<^verbatim>\<open>None\<close> or the name of a set. The sets are well formed
  when the dictionaries have no key twice and every set has an object, as
  \<^verbatim>\<open>create_set\<close> and \<^verbatim>\<open>import_sets\<close> ensure.
\<close>

definition scene_unmodified :: "host \<Rightarrow> manager \<Rightarrow> bool" where
  "scene_unmodified h s = list_all (obj_exists h) (concat (map snd (sets s)))"

definition parents_resolve :: "manager \<Rightarrow> bool" where
  "parents_resolve s =
     list_all (\<lambda>(child_name, parent_name).
                 has_key child_name (sets s) \<and>
                 (parent_name = None \<or> has_key (the parent_name) (sets s)))
       (set_parents s)"

definition sets_well_formed :: "manager \<Rightarrow> bool" where
  "sets_well_formed s =
     (distinct (map fst (sets s)) \<and> distinct (map fst (set_parents s)) \<and>
      [] \<notin> set (map snd (sets s)))"

text \<open>
  What the import keeps of the sets and the parent pointers of a file. Of each set
  the objects that exist in the scene survive, and a set of which no object survives
  is not created. A parent pointer is kept when its set has been created and it holds
  \<^verbatim>\<open>None\<close> or the name of a set that has been created.
\<close>

definition surviving_sets :: "host \<Rightarrow> (string, string list) dict \<Rightarrow> (string, string list) dict" where
  "surviving_sets h imported =
     filter (\<lambda>(name, objects). objects \<noteq> [])
       (map (\<lambda>(name, objects). (name, filter (obj_exists h) objects)) imported)"

definition kept_parents ::
  "(string, string list) dict \<Rightarrow> (string, string option) dict \<Rightarrow> (string, string option) dict" where
  "kept_parents created parents =
     filter (\<lambda>(child_name, parent_name).
               has_key child_name created \<and>
               (parent_name = None \<or> has_key (the parent_name) created))
       parents"

text \<open>
  The manager after \<^verbatim>\<open>create_set("A")\<close> and \<^verbatim>\<open>set_parent("A", "")\<close>; and a host in
  which the object \<open>pCube1\<close> has been deleted.
\<close>

definition cube_deleted :: host where
  "cube_deleted = all_exist\<lparr>obj_exists := (\<lambda>x. x \<noteq> ''pCube1'')\<rparr>"

definition empty_parent :: manager where
  "empty_parent = snd (the (set_parent ''A'' (Some []) (snd (create_set ''A'' [''pCube1''] init))))"

subsection \<open>Selection with channel filtering\<close>







subsection \<open>Failing operations\<close>

text \<open>
  \<open>outcome\<close> runs an operation and gives the failure it reports, if any, with the
  state it leaves.

  A file is rejected when \<^verbatim>\<open>import_sets\<close> fails on it before it clears the
  registries: the file cannot be opened (it is missing, or reading fails), is no JSON,
  is no JSON object, has no key \<^verbatim>\<open>"sets"\<close>, or its \<^verbatim>\<open>"channels"\<close> value is taken for
  true and is no object.

  An import fails after clearing when the file is a JSON object that is not rejected
  and whose \<^verbatim>\<open>"sets"\<close> value is no object, or lists a set whose value cannot be
  iterated over: the exception comes from \<^verbatim>\<open>imported_sets.items()\<close> or from the loop
  over the sets, after the registries have been cleared. The readable sets of the file
  are those listed before the first such set, and \<open>interrupted_import\<close> is the state
  in which the channel flags have been taken from the file, the registries cleared
  and the readable sets imported.
\<close>

definition flag :: "(failure + 'a) \<times> manager \<Rightarrow> failure option \<times> manager" where
  "flag r = (case fst r of Inl e \<Rightarrow> Some e | Inr v \<Rightarrow> None, snd r)"

fun outcome :: "host \<Rightarrow> operation \<Rightarrow> manager \<Rightarrow> (failure option \<times> manager) option" where
  "outcome h (CreateParentGroup name) s = Some (None, snd (create_parent_group name s))"
| "outcome h (AddSetToGroup set_name group_name) s = Some (flag (add_set_to_group set_name group_name s))"
| "outcome h (RemoveSetFromGroup set_name group_name) s =
     Some (flag (remove_set_from_group set_name group_name s))"
| "outcome h (RenameParentGroup old_name new_name) s =
     Some (flag (rename_parent_group old_name new_name s))"
| "outcome h (DeleteParentGroup name) s = Some (flag (delete_parent_group name s))"
| "outcome h (UpdateGroupPosition name x y) s = Some (flag (update_group_position name x y s))"
| "outcome h (UpdateGroupSize name w ht) s = Some (flag (update_group_size name w ht s))"
| "outcome h (UpdateGroupColor name r g b) s = Some (flag (update_group_color name r g b s))"
| "outcome h (UpdateGroupTransparency name a) s = Some (flag (update_group_transparency name a s))"
| "outcome h (CreateSet name sel) s = Some (flag (create_set name sel s))"
| "outcome h (RenameSet old_name new_name) s = Some (flag (rename_set old_name new_name s))"
| "outcome h (DeleteSet name) s = Some (flag (delete_set name s))"
| "outcome h (SetParent child_name parent_name) s = map_option flag (set_parent child_name parent_name s)"
| "outcome h (UpdateSetPosition name x y) s = Some (flag (update_set_position name x y s))"
| "outcome h (UpdateSetSize name w ht) s = Some (flag (update_set_size name w ht s))"
| "outcome h (UpdateSetColor name r g b) s = Some (flag (update_set_color name r g b s))"
| "outcome h (UpdateSetTransparency name a) s = Some (flag (update_set_transparency name a s))"
| "outcome h (UpdateChannelState channel state) s = Some (flag (update_channel_state channel state s))"
| "outcome h (SetBackgroundImage image_path) s = Some (flag (set_background_image image_path s))"
| "outcome h (ImportSets file_path fs) s = Some (flag (import_sets h file_path s fs))"

definition rejected_file :: "filesystem \<Rightarrow> string \<Rightarrow> bool" where
  "rejected_file fs file_path =
     (case fs file_path of
        None \<Rightarrow> True
      | Some NotJson \<Rightarrow> True
      | Some NotADict \<Rightarrow> True
      | Some (Dict d) \<Rightarrow> doc_sets d = None \<or> doc_channels d = Some (NotAnObject True))"

fun fails_after_clearing :: "operation \<Rightarrow> bool" where
  "fails_after_clearing (ImportSets file_path fs) =
     (case fs file_path of
        Some (Dict d) \<Rightarrow>
          doc_channels d \<noteq> Some (NotAnObject True) \<and>
          (case doc_sets d of
             None \<Rightarrow> False
           | Some (NotAnObject truth) \<Rightarrow> True
           | Some (Object imported_sets) \<Rightarrow> NotIterable \<in> set (map snd imported_sets))
      | _ \<Rightarrow> False)"
| "fails_after_clearing _ = False"

fun readable_sets :: "(string, 'a json_array) dict \<Rightarrow> (string, 'a) dict" where
  "readable_sets [] = []"
| "readable_sets ((name, NotIterable) # rest) = []"
| "readable_sets ((name, Array objects) # rest) = (name, objects) # readable_sets rest"





section \<open>The steps of an import\<close>

text \<open>
  The loop over the sets imports the readable ones and fails if one cannot be read.
  An import ends in one of three ways: it fails on a rejected file with the state
  unchanged; it fails after clearing, with some sets imported into the cleared
  registries; or it succeeds.
\<close>

lemma import_all_sets_eq:
  "import_all_sets h d xs st
     = (if NotIterable \<in> set (map snd xs) then Inl ImportFailed else Inr (),
        fold (import_one_set h d) (readable_sets xs) st)"
  by (induction h d xs st rule: import_all_sets.induct) simp_all

lemma import_sets_shape [case_names unchanged interrupted imported]:
  obtains
    e where "import_sets h file_path s fs = (Inl e, s)" "rejected_file fs file_path"
  | d channels xs where "fs file_path = Some (Dict d)"
      "fails_after_clearing (ImportSets file_path fs)"
      "import_sets h file_path s fs
         = (Inl ImportFailed,
            fold (import_one_set h d) xs (clear_registries (s\<lparr>active_channels := channels\<rparr>)))"
  | d channels xs where "fs file_path = Some (Dict d)"
      "import_sets h file_path s fs
         = (Inr (),
            import_background h file_path d
              (fold (import_one_group d) (or_empty (doc_parent_groups d))
                 (fold import_one_parent (or_empty (doc_parents d))
                    (fold (import_one_set h d) xs
                       (clear_registries (s\<lparr>active_channels := channels\<rparr>))))))"
proof (cases "fs file_path")
  case None
  then show ?thesis using that(1) by (simp add: import_sets_def rejected_file_def)
next
  case (Some f)
  show ?thesis
  proof (cases f)
    case NotJson
    then show ?thesis using Some that(1) by (simp add: import_sets_def rejected_file_def)
  next
    case NotADict
    then show ?thesis using Some that(1) by (simp add: import_sets_def rejected_file_def)
  next
    case (Dict d)
    note f = Some [unfolded Dict]
    show ?thesis
    proof (cases "doc_sets d")
      case None
      then show ?thesis using f that(1) by (simp add: import_sets_def rejected_file_def)
    next
      case (Some v)
      note v = Some
      show ?thesis
      proof (cases "update_channels (doc_channels d) (active_channels s)")
        case None
        then have "doc_channels d = Some (NotAnObject True)"
          by (auto simp: update_channels_def split: option.splits json_field.splits if_splits)
        then show ?thesis using f v None that(1) by (simp add: import_sets_def rejected_file_def)
      next
        case (Some channels)
        then have c: "doc_channels d \<noteq> Some (NotAnObject True)"
          by (auto simp: update_channels_def)
        show ?thesis
        proof (cases v)
          case (NotAnObject truth)
          then show ?thesis using f v Some c that(2) [of d "[]" channels]
            by (simp add: import_sets_def)
        next
          case (Object imported_sets)
          show ?thesis
          proof (cases "NotIterable \<in> set (map snd imported_sets)")
            case True
            then show ?thesis
              using f v Some c Object that(2) [of d "readable_sets imported_sets" channels]
              by (simp add: import_sets_def import_all_sets_eq)
          next
            case False
            then show ?thesis
              using f v Some Object that(3) [of d "readable_sets imported_sets" channels]
              by (simp add: import_sets_def import_all_sets_eq)
          qed
        qed
      qed
    qed
  qed
qed

section \<open>The loop that picks a name\<close>


lemma unique_name_unused [simp]:
  "set_name \<notin> set ks \<Longrightarrow> unique_name ks name set_name counter = set_name"
  by (subst unique_name.simps) simp


section \<open>The cycle check\<close>

lemma walk_stop: "\<not> truthy a \<Longrightarrow> walk_ancestors sp c a = Some False"
  by (subst walk_ancestors.simps) simp

lemma walk_hit: "c \<noteq> [] \<Longrightarrow> walk_ancestors sp c (Some c) = Some True"
  by (subst walk_ancestors.simps) simp

lemma walk_step: "a \<noteq> [] \<Longrightarrow> a \<noteq> c \<Longrightarrow>
  walk_ancestors sp c (Some a) = walk_ancestors sp c (parent_of sp a)"
  by (subst walk_ancestors.simps) simp

lemmas eval_set_parent = set_parent_def would_create_circular_reference_def walk_step walk_hit
  walk_stop parent_of_def has_key_def

lemma empty_named_eq: "empty_named = init\<lparr>sets := [([], [''pCube1''])], set_positions := [([], (20,20))],
   set_colors := [([], (70,70,70))], set_sizes := [([], (200,150))], set_transparency := [([], 180)], set_parents := [([], None)]\<rparr>"
  unfolding empty_named_def by code_simp

lemma two_sets_eq: "two_sets = init\<lparr>sets := [(''A'', [''pCube1'']), (''B'', [''pSphere1''])],
   set_positions := [(''A'', (20,20)), (''B'', (40, 40))],
   set_colors := [(''A'', (70,70,70)), (''B'', (70,70,70))], set_sizes := [(''A'', (200,150)), (''B'', (200,150))],
   set_transparency := [(''A'', 180), (''B'', 180)], set_parents := [(''A'', None), (''B'', None)]\<rparr>"
  unfolding two_sets_def by code_simp

lemma nested_pair_eq: "nested_pair = two_sets\<lparr>set_parents := [(''A'', None), (''B'', Some ''A'')]\<rparr>"
  by (simp add: nested_pair_def two_sets_eq init_def eval_set_parent)

lemma parent_rel_has_key: "(a, b) \<in> parent_rel sp \<Longrightarrow> has_key a sp"
  by (auto simp: parent_rel_def has_key_def dest!: map_of_SomeD intro: rev_image_eqI)

lemma parent_rel_parent_of: "(a, b) \<in> parent_rel sp \<Longrightarrow> parent_of sp a = Some b"
  by (simp add: parent_rel_def parent_of_def)

lemma walk_reaches:
  assumes "(a, c) \<in> (parent_rel sp)\<^sup>*" and "c \<noteq> []" and "\<not> has_key [] sp"
  shows "walk_ancestors sp c (Some a) = Some True"
  using assms(1)
proof (induction rule: converse_rtrancl_induct)
  case base
  show ?case using assms(2) by (rule walk_hit)
next
  case (step a b)
  have ne: "a \<noteq> []" using step.hyps(1) assms(3) parent_rel_has_key by blast
  show ?case
  proof (cases "a = c")
    case True
    then show ?thesis using assms(2) walk_hit by simp
  next
    case False
    then show ?thesis
      using ne step.IH parent_rel_parent_of [OF step.hyps(1)] by (simp add: walk_step)
  qed
qed

lemma finite_parent_rel: "finite (parent_rel sp)"
proof -
  have "parent_rel sp \<subseteq> (\<lambda>(c, p). (c, the p)) ` set sp"
    by (auto simp: parent_rel_def dest!: map_of_SomeD intro!: rev_image_eqI)
  then show ?thesis by (rule finite_subset) simp
qed

lemma walk_total:
  assumes "acyclic (parent_rel sp)"
  shows "\<exists>b. walk_ancestors sp c a = Some b"
proof -
  have wf: "wf ((parent_rel sp)\<inverse>)"
    using finite_parent_rel assms by (rule finite_acyclic_wf_converse)
  have "\<exists>b. walk_ancestors sp c (Some x) = Some b" for x
    using wf
  proof (induction x rule: wf_induct_rule)
    case (less x)
    show ?case
    proof (cases "x = [] \<or> x = c")
      case True
      then show ?thesis by (subst walk_ancestors.simps) auto
    next
      case False
      then have eq: "walk_ancestors sp c (Some x) = walk_ancestors sp c (parent_of sp x)"
        by (simp add: walk_step)
      show ?thesis
      proof (cases "parent_of sp x")
        case None
        then show ?thesis using eq by (auto simp: walk_stop)
      next
        case (Some p)
        then have "(x, p) \<in> parent_rel sp"
          by (auto simp: parent_of_def parent_rel_def split: option.splits)
        then show ?thesis using less.IH [of p] eq Some by simp
      qed
    qed
  qed
  then show ?thesis by (cases a) (auto simp: walk_stop)
qed

lemma walk_True_reaches:
  assumes "acyclic (parent_rel sp)"
  shows "walk_ancestors sp c (Some x) = Some True \<Longrightarrow> (x, c) \<in> (parent_rel sp)\<^sup>*"
proof -
  have wf: "wf ((parent_rel sp)\<inverse>)"
    using finite_parent_rel assms by (rule finite_acyclic_wf_converse)
  show "walk_ancestors sp c (Some x) = Some True \<Longrightarrow> (x, c) \<in> (parent_rel sp)\<^sup>*"
    using wf
  proof (induction x rule: wf_induct_rule)
    case (less x)
    show ?case
    proof (cases "x = c")
      case True
      then show ?thesis by simp
    next
      case False
      have ne: "x \<noteq> []" using less.prems by (auto simp: walk_stop)
      then have eq: "walk_ancestors sp c (parent_of sp x) = Some True"
        using False less.prems by (simp add: walk_step)
      then obtain p where p: "parent_of sp x = Some p"
        by (cases "parent_of sp x") (auto simp: walk_stop)
      then have edge: "(x, p) \<in> parent_rel sp"
        by (auto simp: parent_of_def parent_rel_def split: option.splits)
      then have "(p, c) \<in> (parent_rel sp)\<^sup>*"
        using less.IH [of p] eq p by simp
      with edge show ?thesis by (rule converse_rtrancl_into_rtrancl)
    qed
  qed
qed

lemma map_of_update_same: "map_of (AList.update k v d) k = Some v"
  by (simp add: update_conv')

lemma parent_rel_nested_pair: "parent_rel (set_parents nested_pair) = {(''B'', ''A'')}"
  by (auto simp: nested_pair_eq two_sets_eq parent_rel_def split: if_splits)

lemma parent_rel_two_sets: "parent_rel (set_parents two_sets) = {}"
  by (auto simp: two_sets_eq parent_rel_def split: if_splits)

text \<open>
  Claim C1, as amended. Let \<open>child\<close> and \<open>parent\<close> be names of existing sets such that
  \<open>parent\<close> is a descendant of \<open>child\<close> or \<open>child\<close> itself, let \<open>child\<close> not be the
  empty name and let the empty name have no entry in \<^verbatim>\<open>set_parents\<close>. Then
  \<^verbatim>\<open>set_parent(child, parent)\<close> returns the failure \<open>CycleRejected\<close> and the state is the
  one before the call.
\<close>

theorem set_parent_rejects_cycle:
  assumes "has_key child (sets s)" and "has_key parent (sets s)"
    and "(parent, child) \<in> (parent_rel (set_parents s))\<^sup>*"
    and "child \<noteq> []" and "\<not> has_key [] (set_parents s)"
  shows "set_parent child (Some parent) s = Some (Inl (CycleRejected parent child), s)"
proof -
  have "parent \<noteq> []"
    using assms(3,4,5) by (metis converse_rtranclE parent_rel_has_key)
  moreover have "walk_ancestors (set_parents s) child (Some parent) = Some True"
    using assms(3,4,5) by (rule walk_reaches)
  ultimately show ?thesis
    using assms(1,2) by (simp add: set_parent_def would_create_circular_reference_def)
qed

theorem set_parent_rejects_cycle_witness:
  "has_key ''A'' (sets nested_pair) \<and> has_key ''B'' (sets nested_pair)
   \<and> (''B'', ''A'') \<in> (parent_rel (set_parents nested_pair))\<^sup>*
   \<and> ''A'' \<noteq> [] \<and> \<not> has_key [] (set_parents nested_pair)
   \<and> set_parent ''A'' (Some ''B'') nested_pair = Some (Inl (CycleRejected ''B'' ''A''), nested_pair)"
proof -
  have h1: "has_key ''A'' (sets nested_pair)" and h2: "has_key ''B'' (sets nested_pair)"
    by (simp_all add: nested_pair_eq two_sets_eq has_key_def)
  have h3: "(''B'', ''A'') \<in> (parent_rel (set_parents nested_pair))\<^sup>*"
    by (rule r_into_rtrancl) (simp add: parent_rel_nested_pair)
  have h4: "''A'' \<noteq> []" by simp
  have h5: "\<not> has_key [] (set_parents nested_pair)" by (simp add: nested_pair_eq has_key_def)
  show ?thesis using h1 h2 h3 h4 h5 set_parent_rejects_cycle [OF h1 h2 h3 h4 h5] by blast
qed

text \<open>
  Claim C1 as stated fails for a set with the empty name: the guard
  \<^verbatim>\<open>if parent_name and ...\<close> takes the empty string for "no parent", so
  \<^verbatim>\<open>set_parent("", "")\<close> skips the cycle check, succeeds and makes the set its own
  parent.
\<close>

theorem set_parent_empty_name_counterexample:
  "has_key [] (sets empty_named)
   \<and> ([], []) \<in> (parent_rel (set_parents empty_named))\<^sup>*
   \<and> set_parent [] (Some []) empty_named
       = Some (Inr (), empty_named\<lparr>set_parents := [([], Some [])]\<rparr>)"
  by (simp add: empty_named_eq init_def has_key_def set_parent_def)

text \<open>
  Claim C2, as amended. Let \<open>child\<close> and \<open>parent\<close> be names of existing sets in a state
  whose parent pointers form a forest, and let \<open>parent\<close> be neither \<open>child\<close> nor a
  descendant of \<open>child\<close>. Then \<^verbatim>\<open>set_parent(child, parent)\<close> returns success, and
  afterwards the parent pointer of \<open>child\<close> is \<open>parent\<close>: the walk from \<open>child\<close> reaches
  \<open>parent\<close> in one step.
\<close>

theorem set_parent_succeeds:
  assumes "has_key child (sets s)" and "has_key parent (sets s)"
    and "acyclic (parent_rel (set_parents s))"
    and "(parent, child) \<notin> (parent_rel (set_parents s))\<^sup>*"
  shows "\<exists>s'. set_parent child (Some parent) s = Some (Inr (), s')
           \<and> (child, parent) \<in> parent_rel (set_parents s')
           \<and> parent_of (set_parents s') child = Some parent"
proof -
  let ?s' = "s\<lparr>set_parents := AList.update child (Some parent) (set_parents s)\<rparr>"
  have after: "(child, parent) \<in> parent_rel (set_parents ?s')"
    "parent_of (set_parents ?s') child = Some parent"
    by (simp_all add: parent_rel_def parent_of_def map_of_update_same)
  have "set_parent child (Some parent) s = Some (Inr (), ?s')"
  proof (cases "parent = []")
    case True
    then show ?thesis using assms(1) by (simp add: set_parent_def)
  next
    case False
    obtain b where b: "walk_ancestors (set_parents s) child (Some parent) = Some b"
      using walk_total [OF assms(3)] by blast
    have "b = False"
    proof (rule ccontr)
      assume "b \<noteq> False"
      then have "walk_ancestors (set_parents s) child (Some parent) = Some True" using b by simp
      then show False using walk_True_reaches [OF assms(3)] assms(4) by blast
    qed
    then show ?thesis
      using assms(1,2) False b by (simp add: set_parent_def would_create_circular_reference_def)
  qed
  then show ?thesis using after by blast
qed

theorem set_parent_succeeds_witness:
  "has_key ''B'' (sets two_sets) \<and> has_key ''A'' (sets two_sets)
   \<and> acyclic (parent_rel (set_parents two_sets))
   \<and> (''A'', ''B'') \<notin> (parent_rel (set_parents two_sets))\<^sup>*
   \<and> (\<exists>s'. set_parent ''B'' (Some ''A'') two_sets = Some (Inr (), s')
           \<and> (''B'', ''A'') \<in> parent_rel (set_parents s')
           \<and> parent_of (set_parents s') ''B'' = Some ''A'')"
proof -
  have h1: "has_key ''B'' (sets two_sets)" and h2: "has_key ''A'' (sets two_sets)"
    by (simp_all add: two_sets_eq has_key_def)
  have h3: "acyclic (parent_rel (set_parents two_sets))" by (simp add: parent_rel_two_sets acyclic_def)
  have h4: "(''A'', ''B'') \<notin> (parent_rel (set_parents two_sets))\<^sup>*" by (simp add: parent_rel_two_sets)
  show ?thesis using h1 h2 h3 h4 set_parent_succeeds [OF h1 h2 h3 h4] by blast
qed

text \<open>
  Claim C2 as stated asks that \<open>parent\<close> is not an ancestor of \<open>child\<close>. That is not
  what the check tests: with \<open>B\<close> a child of \<open>A\<close>, the set \<open>B\<close> is not an ancestor of
  \<open>A\<close>, and \<^verbatim>\<open>set_parent("A", "B")\<close> is rejected.
\<close>

theorem set_parent_descendant_counterexample:
  "has_key ''A'' (sets nested_pair) \<and> has_key ''B'' (sets nested_pair)
   \<and> (''A'', ''B'') \<notin> (parent_rel (set_parents nested_pair))\<^sup>+
   \<and> set_parent ''A'' (Some ''B'') nested_pair
       = Some (Inl (CycleRejected ''B'' ''A''), nested_pair)"
proof -
  have "(''A'', ''B'') \<notin> (parent_rel (set_parents nested_pair))\<^sup>+"
    by (auto simp: parent_rel_nested_pair dest: tranclD)
  then show ?thesis
    by (simp add: nested_pair_eq two_sets_eq init_def eval_set_parent)
qed

section \<open>The forest invariant\<close>

lemma parent_rel_update:
  "parent_rel (AList.update c p sp) \<subseteq> parent_rel sp \<union> (case p of None \<Rightarrow> {} | Some q \<Rightarrow> {(c, q)})"
  by (auto simp: parent_rel_def update_conv' split: if_splits option.splits)

lemma parent_rel_update_None: "parent_rel (AList.update c None sp) \<subseteq> parent_rel sp"
  using parent_rel_update [of c None sp] by simp

lemma parent_rel_delete: "parent_rel (AList.delete c sp) \<subseteq> parent_rel sp"
  by (auto simp: parent_rel_def delete_conv' split: if_splits)

lemma map_of_repoint:
  "map_of (repoint_children old new sp) c
     = map_option (\<lambda>p. if p = Some old then new else p) (map_of sp c)"
  unfolding repoint_children_def by (simp add: map_of_map)

lemma parent_rel_repoint_None: "parent_rel (repoint_children n None sp) \<subseteq> parent_rel sp"
  by (auto simp: parent_rel_def map_of_repoint split: if_splits)

lemma acyclic_rename:
  assumes ac: "acyclic r" and inj: "inj_on f (Field r)"
  shows "acyclic (map_prod f f ` r)"
proof -
  have pull: "(x, y) \<in> (map_prod f f ` r)\<^sup>+ \<Longrightarrow> \<exists>a b. x = f a \<and> y = f b \<and> (a, b) \<in> r\<^sup>+" for x y
  proof (induction rule: trancl_induct)
    case (base y)
    then show ?case by auto
  next
    case (step y z)
    then obtain a b where ab: "x = f a" "y = f b" "(a, b) \<in> r\<^sup>+" by blast
    from step.hyps(2) obtain c d where cd: "y = f c" "z = f d" "(c, d) \<in> r" by auto
    have "b \<in> Field r" using ab(3) by (metis FieldI2 tranclE)
    moreover have "c \<in> Field r" using cd(3) by (rule FieldI1)
    ultimately have "b = c" using inj ab(2) cd(1) by (auto dest: inj_onD)
    then have "(a, d) \<in> r\<^sup>+" using ab(3) cd(3) by auto
    then show ?case using ab(1) cd(2) by blast
  qed
  show ?thesis
  proof (unfold acyclic_def, intro allI notI)
    fix x assume "(x, x) \<in> (map_prod f f ` r)\<^sup>+"
    then obtain a b where ab: "x = f a" "x = f b" "(a, b) \<in> r\<^sup>+" using pull by blast
    have "a \<in> Field r" using ab(3) by (metis FieldI1 tranclD)
    moreover have "b \<in> Field r" using ab(3) by (metis FieldI2 tranclE)
    ultimately have "a = b" using inj ab(1,2) by (auto dest: inj_onD)
    then show False using ab(3) ac by (auto simp: acyclic_def)
  qed
qed

lemma map_of_move_key:
  "map_of (move_key old new d) c =
     (if has_key old d
      then (if c = old then None else if c = new then map_of d old else map_of d c)
      else map_of d c)"
  by (auto simp: move_key_def dict_at_def delete_conv' update_conv' has_key_def
      dest: weak_map_of_SomeI simp: map_of_eq_None_iff [symmetric] split: option.splits)

lemma parent_rel_rename:
  "parent_rel (repoint_children old (Some new) (move_key old new sp))
     \<subseteq> map_prod (\<lambda>x. if x = old then new else x) (\<lambda>x. if x = old then new else x) ` parent_rel sp"
proof
  fix e assume e: "e \<in> parent_rel (repoint_children old (Some new) (move_key old new sp))"
  obtain c q where cq: "e = (c, q)" by (cases e)
  let ?f = "\<lambda>x. if x = old then new else x"
  from e cq obtain p where p: "map_of (move_key old new sp) c = Some p"
    and q: "Some q = (if p = Some old then Some new else p)"
    by (auto simp: parent_rel_def map_of_repoint)
  from q obtain p' where p': "p = Some p'" and qf: "q = ?f p'"
    by (cases p) (auto split: if_splits)
  have "\<exists>c'. c = ?f c' \<and> map_of sp c' = Some (Some p')"
  proof (cases "has_key old sp")
    case True
    then show ?thesis using p p' by (auto simp: map_of_move_key split: if_splits)
  next
    case False
    then have "c \<noteq> old" using p p'
      by (auto simp: map_of_move_key has_key_def dest!: map_of_SomeD intro: rev_image_eqI)
    then show ?thesis using False p p' by (auto simp: map_of_move_key)
  qed
  then obtain c' where "c = ?f c'" "(c', p') \<in> parent_rel sp" by (auto simp: parent_rel_def)
  then show "e \<in> map_prod ?f ?f ` parent_rel sp" using cq qf by (auto intro!: rev_image_eqI)
qed

lemma Field_parent_rel:
  "x \<in> Field (parent_rel sp) \<Longrightarrow> has_key x sp \<or> Some x \<in> set (map snd sp)"
  by (auto simp: Field_def parent_rel_def has_key_def dest!: map_of_SomeD intro: rev_image_eqI)

lemma forest_rename:
  assumes "acyclic (parent_rel sp)" and "\<not> has_key new sp" and "Some new \<notin> set (map snd sp)"
  shows "acyclic (parent_rel (repoint_children old (Some new) (move_key old new sp)))"
proof -
  have "new \<notin> Field (parent_rel sp)" using assms(2,3) Field_parent_rel by blast
  then have "inj_on (\<lambda>x. if x = old then new else x) (Field (parent_rel sp))"
    by (auto simp: inj_on_def)
  then have "acyclic (map_prod (\<lambda>x. if x = old then new else x) (\<lambda>x. if x = old then new else x)
      ` parent_rel sp)"
    using assms(1) by (intro acyclic_rename)
  then show ?thesis using parent_rel_rename by (rule acyclic_subset)
qed

lemma forest_set_parent:
  assumes ac: "acyclic (parent_rel sp)" and ne: "child \<noteq> []" and nk: "\<not> has_key [] sp"
    and ok: "\<not> truthy (Some parent) \<or> walk_ancestors sp child (Some parent) = Some False"
  shows "acyclic (parent_rel (AList.update child (Some parent) sp))"
proof -
  have "(parent, child) \<notin> (parent_rel sp)\<^sup>*"
  proof
    assume r: "(parent, child) \<in> (parent_rel sp)\<^sup>*"
    then have "walk_ancestors sp child (Some parent) = Some True" using ne nk by (rule walk_reaches)
    with ok have "parent = []" by auto
    with r ne nk show False by (metis converse_rtranclE parent_rel_has_key)
  qed
  then have "acyclic (insert (child, parent) (parent_rel sp))" using ac by (simp add: acyclic_insert)
  moreover have "parent_rel (AList.update child (Some parent) sp) \<subseteq> insert (child, parent) (parent_rel sp)"
    using parent_rel_update [of child "Some parent" sp] by auto
  ultimately show ?thesis by (rule acyclic_subset)
qed

lemma fold_import_one_set_parents [simp]:
  "set_parents (fold (import_one_set h d) xs s) = set_parents s"
  by (induction xs arbitrary: s) (simp_all add: import_one_set_def Let_def)

lemma fold_import_one_group_parents [simp]:
  "set_parents (fold (import_one_group d) xs s) = set_parents s"
  by (induction xs arbitrary: s) (simp_all add: import_one_group_def Let_def)

lemma import_background_parents [simp]:
  "set_parents (import_background h p d s) = set_parents s"
  by (simp add: import_background_def split: option.splits)

lemma fold_import_one_parent_rel:
  "parent_rel (set_parents (fold import_one_parent ps s))
     \<subseteq> parent_rel (set_parents s) \<union> {(c, p). (c, Some p) \<in> set ps}"
proof (induction ps arbitrary: s)
  case Nil
  then show ?case by simp
next
  case (Cons e ps)
  have "parent_rel (set_parents (import_one_parent e s))
          \<subseteq> parent_rel (set_parents s) \<union> {(c, p). (c, Some p) \<in> {e}}"
    using parent_rel_update [of "fst e" "snd e" "set_parents s"]
    by (cases e) (auto simp: import_one_parent_def Let_def split: option.splits)
  then show ?case using Cons.IH [of "import_one_parent e s"] by auto
qed

lemma forest_import:
  assumes "acyclic (file_parent_rel fs file_path)" and that: "forest s"
  shows "forest (snd (import_sets h file_path s fs))"
proof (cases rule: import_sets_shape [where h = h and file_path = file_path and s = s and fs = fs])
  case (unchanged e)
  then show ?thesis using that by simp
next
  case (interrupted d channels xs)
  then show ?thesis by (simp add: forest_def clear_registries_def parent_rel_def acyclic_def)
next
  case (imported d channels xs)
  have "parent_rel (set_parents (snd (import_sets h file_path s fs)))
          \<subseteq> {(c, p). (c, Some p) \<in> set (or_empty (doc_parents d))}"
    using imported(2)
      fold_import_one_parent_rel [of "or_empty (doc_parents d)"
        "fold (import_one_set h d) xs (clear_registries (s\<lparr>active_channels := channels\<rparr>))"]
    by (simp add: clear_registries_def parent_rel_def)
  moreover have "acyclic {(c, p). (c, Some p) \<in> set (or_empty (doc_parents d))}"
    using assms imported(1) by (simp add: file_parent_rel_def)
  ultimately show ?thesis unfolding forest_def by (rule acyclic_subset [rotated])
qed

lemmas plain_op_defs =
  create_parent_group_def add_set_to_group_def remove_set_from_group_def
  rename_parent_group_def delete_parent_group_def update_group_position_def
  update_group_size_def update_group_color_def update_group_transparency_def
  update_set_position_def update_set_size_def update_set_color_def
  update_set_transparency_def update_channel_state_def set_background_image_def

lemma forest_create_set: "forest s \<Longrightarrow> forest (snd (create_set name sel s))"
  unfolding forest_def
  by (auto simp: create_set_def Let_def intro: acyclic_subset [OF _ parent_rel_update_None])

lemma forest_delete_set: "forest s \<Longrightarrow> forest (snd (delete_set name s))"
proof -
  assume f: "forest s"
  have "parent_rel (repoint_children name None (AList.delete name (set_parents s)))
          \<subseteq> parent_rel (set_parents s)"
    using parent_rel_repoint_None parent_rel_delete by blast
  then show ?thesis using f unfolding forest_def
    by (auto simp: delete_set_def Let_def remove_set_from_group_def intro: acyclic_subset)
qed

lemma forest_rename_set:
  assumes "forest s" and "\<not> has_key new_name (set_parents s)"
    and "Some new_name \<notin> set (map snd (set_parents s))"
  shows "forest (snd (rename_set old_name new_name s))"
  using assms forest_rename [of "set_parents s" new_name old_name]
  by (auto simp: rename_set_def forest_def)

lemma forest_set_parent_op:
  assumes f: "forest s" and k: "parent_name = None \<or> (child_name \<noteq> [] \<and> \<not> has_key [] (set_parents s))"
    and r: "set_parent child_name parent_name s = Some (res, s')"
  shows "forest s'"
proof (cases parent_name)
  case None
  then show ?thesis using f r parent_rel_update_None [of child_name "set_parents s"]
    by (auto simp: set_parent_def forest_def split: if_splits intro: acyclic_subset)
next
  case (Some parent)
  with k have ne: "child_name \<noteq> []" and nk: "\<not> has_key [] (set_parents s)" by auto
  show ?thesis
  proof (cases "s' = s")
    case True
    then show ?thesis using f by simp
  next
    case False
    then have upd: "s' = s\<lparr>set_parents := AList.update child_name (Some parent) (set_parents s)\<rparr>"
      and ok: "\<not> truthy (Some parent) \<or> walk_ancestors (set_parents s) child_name (Some parent) = Some False"
      using r Some
      by (auto simp: set_parent_def would_create_circular_reference_def
          split: if_splits option.splits bool.splits)
    show ?thesis using forest_set_parent [OF _ ne nk ok] f upd by (simp add: forest_def)
  qed
qed

lemma import_cyclic_parents:
  "set_parents (snd (import_sets all_exist ''sets.json'' init [''sets.json'' \<mapsto> Dict cyclic_doc]))
     = [(''A'', Some ''B''), (''B'', Some ''A'')]"
  by code_simp

lemma forest_init: "forest init"
  by (simp add: forest_def init_def parent_rel_def acyclic_def)

text \<open>
  Claim C3, as amended. If the parent pointers form a forest and an operation of the
  manager is run under its side condition \<open>keeps_forest\<close> (none for the operations
  other than \<^verbatim>\<open>set_parent\<close>, \<^verbatim>\<open>rename_set\<close> and \<^verbatim>\<open>import_sets\<close>), the parent pointers
  form a forest afterwards.
\<close>

theorem forest_preserved:
  assumes "forest s" and "keeps_forest op s" and "exec h op s = Some s'"
  shows "forest s'"
proof (cases op)
  case (CreateSet name sel)
  then show ?thesis using assms forest_create_set by auto
next
  case (RenameSet old_name new_name)
  then show ?thesis using assms forest_rename_set by auto
next
  case (DeleteSet name)
  then show ?thesis using assms forest_delete_set by auto
next
  case (SetParent child_name parent_name)
  then show ?thesis using assms forest_set_parent_op [of s parent_name child_name] by auto
next
  case (ImportSets file_path fs)
  then show ?thesis using assms forest_import by auto
qed (use assms in \<open>auto simp: forest_def plain_op_defs Let_def split: if_splits option.splits\<close>)

theorem forest_preserved_witness:
  "forest two_sets \<and> keeps_forest (SetParent ''B'' (Some ''A'')) two_sets
   \<and> exec all_exist (SetParent ''B'' (Some ''A'')) two_sets = Some nested_pair
   \<and> forest nested_pair"
proof -
  have h1: "forest two_sets" by (simp add: forest_def parent_rel_two_sets acyclic_def)
  have h2: "keeps_forest (SetParent ''B'' (Some ''A'')) two_sets"
    by (simp add: two_sets_eq has_key_def)
  have h3: "exec all_exist (SetParent ''B'' (Some ''A'')) two_sets = Some nested_pair"
    by (simp add: nested_pair_eq two_sets_eq init_def eval_set_parent)
  show ?thesis using h1 h2 h3 forest_preserved [OF h1 h2 h3] by blast
qed

text \<open>
  Claim C3 as stated fails for \<^verbatim>\<open>import_sets\<close>: the loop over the imported parents
  checks only that both names are sets of the file, so a file in which \<open>A\<close> and \<open>B\<close>
  name each other as parent is imported as it is.
\<close>

theorem import_cycle_counterexample:
  "forest init \<and>
   \<not> forest (snd (import_sets all_exist ''sets.json'' init [''sets.json'' \<mapsto> Dict cyclic_doc]))"
proof -
  let ?r = "parent_rel [(''A'', Some ''B''), (''B'', Some ''A'')]"
  have "(''A'', ''B'') \<in> ?r" and "(''B'', ''A'') \<in> ?r" by (simp_all add: parent_rel_def)
  then have "(''A'', ''A'') \<in> ?r\<^sup>+" by (meson trancl.simps)
  then have "\<not> acyclic ?r" by (auto simp: acyclic_def)
  then show ?thesis using forest_init by (simp add: forest_def import_cyclic_parents)
qed

section \<open>Group membership\<close>

lemma grouped_Nil [simp]: "grouped [] = []"
  by (simp add: grouped_def)

lemma grouped_Cons [simp]: "grouped ((k, l) # gs) = l @ grouped gs"
  by (simp add: grouped_def)

lemma grouped_append [simp]: "grouped (gs @ hs) = grouped gs @ grouped hs"
  by (simp add: grouped_def)

lemma members_subset: "map_of gs g = Some m \<Longrightarrow> set m \<subseteq> set (grouped gs)"
  by (induction gs) (auto split: if_splits)

lemma members_distinct: "distinct (grouped gs) \<Longrightarrow> map_of gs g = Some m \<Longrightarrow> distinct m"
  by (induction gs) (auto split: if_splits)

lemma set_grouped_update:
  "set (grouped (AList.update g m' gs)) \<subseteq> set (grouped gs) \<union> set m'"
  by (induction gs) auto

lemma distinct_grouped_update:
  assumes "distinct (grouped gs)" and "map_of gs g = Some m" and "distinct m'"
    and "set m' \<inter> set (grouped gs) \<subseteq> set m"
  shows "distinct (grouped (AList.update g m' gs))"
  using assms
proof (induction gs)
  case Nil
  then show ?case by simp
next
  case (Cons e gs)
  obtain k l where e: "e = (k, l)" by (cases e)
  show ?case
  proof (cases "k = g")
    case True
    then show ?thesis using Cons.prems e by auto
  next
    case False
    then have m: "map_of gs g = Some m" using Cons.prems(2) e by simp
    have sub: "set m \<subseteq> set (grouped gs)" using m by (rule members_subset)
    have d: "distinct (grouped (AList.update g m' gs))"
      using Cons.IH Cons.prems e m by auto
    have dis: "set l \<inter> set (grouped gs) = {}" using Cons.prems(1) e by auto
    have "set l \<inter> set m' = {}"
    proof (rule ccontr)
      assume "set l \<inter> set m' \<noteq> {}"
      then obtain x where x: "x \<in> set l" "x \<in> set m'" by auto
      then have "x \<in> set m" using Cons.prems(4) e by auto
      then have "x \<in> set (grouped gs)" using sub by auto
      with x(1) dis show False by auto
    qed
    then have "set l \<inter> set (grouped (AList.update g m' gs)) = {}"
      using dis set_grouped_update [of g m' gs] by blast
    then show ?thesis using d Cons.prems(1) e False by auto
  qed
qed

lemma distinct_grouped_update_empty:
  "distinct (grouped gs) \<Longrightarrow> distinct (grouped (AList.update g [] gs))"
proof (induction gs)
  case Nil
  then show ?case by simp
next
  case (Cons e gs)
  have "set (grouped (AList.update g [] gs)) \<subseteq> set (grouped gs)"
    using set_grouped_update [of g "[]" gs] by simp
  then show ?case using Cons by (cases e) auto
qed

lemma remove_from_all_Cons [simp]:
  "remove_from_all_groups x ((k, l) # gs) = (k, remove1 x l) # remove_from_all_groups x gs"
  by (simp add: remove_from_all_groups_def)

lemma remove_from_all_Nil [simp]: "remove_from_all_groups x [] = []"
  by (simp add: remove_from_all_groups_def)

lemma set_grouped_remove_all:
  "set (grouped (remove_from_all_groups x gs)) \<subseteq> set (grouped gs)"
proof (induction gs)
  case Nil
  then show ?case by simp
next
  case (Cons e gs)
  then show ?case using set_remove1_subset [of x "snd e"] by (cases e) auto
qed

lemma distinct_grouped_remove_all:
  "distinct (grouped gs) \<Longrightarrow> distinct (grouped (remove_from_all_groups x gs))"
proof (induction gs)
  case Nil
  then show ?case by simp
next
  case (Cons e gs)
  obtain k l where e: "e = (k, l)" by (cases e)
  have "set (remove1 x l) \<inter> set (grouped (remove_from_all_groups x gs)) = {}"
    using Cons.prems e set_grouped_remove_all [of x gs] set_remove1_subset [of x l] by auto
  then show ?case using Cons e by auto
qed

lemma removed_from_all:
  "distinct (grouped gs) \<Longrightarrow> x \<notin> set (grouped (remove_from_all_groups x gs))"
proof (induction gs)
  case Nil
  then show ?case by simp
next
  case (Cons e gs)
  then show ?case by (cases e) auto
qed

lemma has_key_remove_all [simp]: "has_key g (remove_from_all_groups x gs) = has_key g gs"
  by (induction gs) (auto simp: has_key_def)

lemma has_key_map_of: "has_key k d \<Longrightarrow> map_of d k = Some (dict_at d k)"
  by (auto simp: has_key_def dict_at_def dest: weak_map_of_SomeI)

lemma single_membership_add:
  assumes "single_membership s"
  shows "single_membership (snd (add_set_to_group x g s))"
proof (cases "has_key x (sets s) \<and> has_key g (parent_groups s)")
  case False
  then show ?thesis using assms by (auto simp: add_set_to_group_def)
next
  case True
  let ?gs = "remove_from_all_groups x (parent_groups s)"
  have d: "distinct (grouped ?gs)"
    using assms by (simp add: single_membership_def distinct_grouped_remove_all)
  have nx: "x \<notin> set (grouped ?gs)"
    using assms by (simp add: single_membership_def removed_from_all)
  have m: "map_of ?gs g = Some (dict_at ?gs g)" using True by (simp add: has_key_map_of)
  have dm: "distinct (dict_at ?gs g)" using d m by (rule members_distinct)
  have "distinct (grouped (AList.update g (dict_at ?gs g @ [x]) ?gs))"
  proof (rule distinct_grouped_update [OF d m])
    show "distinct (dict_at ?gs g @ [x])" using dm nx members_subset [OF m] by auto
  qed (use nx in auto)
  then show ?thesis using True d by (auto simp: add_set_to_group_def Let_def single_membership_def)
qed

lemma single_membership_remove:
  assumes "single_membership s"
  shows "single_membership (snd (remove_set_from_group x g s))"
proof (cases g)
  case None
  then show ?thesis using assms
    by (auto simp: remove_set_from_group_def single_membership_def distinct_grouped_remove_all)
next
  case (Some k)
  show ?thesis
  proof (cases "has_key x (sets s) \<and> has_key k (parent_groups s)")
    case False
    then show ?thesis using assms Some by (auto simp: remove_set_from_group_def)
  next
    case True
    let ?gs = "parent_groups s"
    have d: "distinct (grouped ?gs)" using assms by (simp add: single_membership_def)
    have m: "map_of ?gs k = Some (dict_at ?gs k)" using True by (simp add: has_key_map_of)
    have "distinct (grouped (AList.update k (remove1 x (dict_at ?gs k)) ?gs))"
    proof (rule distinct_grouped_update [OF d m])
      show "distinct (remove1 x (dict_at ?gs k))" using members_distinct [OF d m] by simp
      show "set (remove1 x (dict_at ?gs k)) \<inter> set (grouped ?gs) \<subseteq> set (dict_at ?gs k)"
        using set_remove1_subset [of x "dict_at ?gs k"] by auto
    qed
    then show ?thesis using True Some by (auto simp: remove_set_from_group_def single_membership_def)
  qed
qed

lemma set_grouped_delete: "set (grouped (AList.delete g gs)) \<subseteq> set (grouped gs)"
proof (induction gs)
  case Nil
  then show ?case by simp
next
  case (Cons e gs)
  then show ?case by (cases e) auto
qed

lemma distinct_grouped_delete: "distinct (grouped gs) \<Longrightarrow> distinct (grouped (AList.delete g gs))"
proof (induction gs)
  case Nil
  then show ?case by simp
next
  case (Cons e gs)
  then show ?case using set_grouped_delete [of g gs] by (cases e) auto
qed

lemma delete_members_disjoint:
  "distinct (grouped gs) \<Longrightarrow> map_of gs g = Some m \<Longrightarrow> set m \<inter> set (grouped (AList.delete g gs)) = {}"
proof (induction gs)
  case Nil
  then show ?case by simp
next
  case (Cons e gs)
  obtain k l where e: "e = (k, l)" by (cases e)
  show ?case
  proof (cases "k = g")
    case True
    then show ?thesis using Cons.prems e set_grouped_delete [of g gs] by auto
  next
    case False
    then have m: "map_of gs g = Some m" using Cons.prems(2) e by simp
    have "set m \<subseteq> set (grouped gs)" using m by (rule members_subset)
    then show ?thesis using Cons.IH [OF _ m] Cons.prems(1) e False by auto
  qed
qed

lemma update_fresh: "\<not> has_key k d \<Longrightarrow> AList.update k v d = d @ [(k, v)]"
  by (induction d) (auto simp: has_key_def)

lemma delete_append: "AList.delete k (d @ e) = AList.delete k d @ AList.delete k e"
  by (simp add: AList.delete_eq)

lemma distinct_grouped_move:
  assumes "distinct (grouped gs)" and "has_key old gs" and "\<not> has_key new gs"
  shows "distinct (grouped (move_key old new gs))"
proof -
  have ne: "old \<noteq> new" using assms(2,3) by auto
  have m: "map_of gs old = Some (dict_at gs old)" using assms(2) by (rule has_key_map_of)
  have "move_key old new gs = AList.delete old gs @ [(new, dict_at gs old)]"
    using assms(2,3) ne by (simp add: move_key_def update_fresh delete_append AList.delete_eq)
  moreover have "distinct (grouped (AList.delete old gs))"
    using assms(1) by (rule distinct_grouped_delete)
  moreover have "distinct (dict_at gs old)" using assms(1) m by (rule members_distinct)
  moreover have "set (dict_at gs old) \<inter> set (grouped (AList.delete old gs)) = {}"
    using assms(1) m by (rule delete_members_disjoint)
  ultimately show ?thesis by auto
qed

lemma rename_in_groups_Cons [simp]:
  "rename_in_groups old new ((k, l) # gs) =
     (k, if old \<in> set l then remove1 old l @ [new] else l) # rename_in_groups old new gs"
  by (simp add: rename_in_groups_def)

lemma rename_in_groups_Nil [simp]: "rename_in_groups old new [] = []"
  by (simp add: rename_in_groups_def)

lemma rename_in_groups_absent:
  "old \<notin> set (grouped gs) \<Longrightarrow> rename_in_groups old new gs = gs"
proof (induction gs)
  case Nil
  then show ?case by simp
next
  case (Cons e gs)
  then show ?case by (cases e) auto
qed

lemma set_grouped_rename:
  "set (grouped (rename_in_groups old new gs)) \<subseteq> set (grouped gs) \<union> {new}"
proof (induction gs)
  case Nil
  then show ?case by simp
next
  case (Cons e gs)
  then show ?case using set_remove1_subset [of old "snd e"] by (cases e) auto
qed

lemma distinct_grouped_rename:
  assumes "distinct (grouped gs)" and "new \<notin> set (grouped gs)"
  shows "distinct (grouped (rename_in_groups old new gs))"
  using assms
proof (induction gs)
  case Nil
  then show ?case by simp
next
  case (Cons e gs)
  obtain k l where e: "e = (k, l)" by (cases e)
  have dl: "distinct l" and dg: "distinct (grouped gs)" and dis: "set l \<inter> set (grouped gs) = {}"
    and nl: "new \<notin> set l" and ng: "new \<notin> set (grouped gs)"
    using Cons.prems e by auto
  show ?case
  proof (cases "old \<in> set l")
    case True
    then have "old \<notin> set (grouped gs)" using dis by auto
    then have "rename_in_groups old new gs = gs" by (rule rename_in_groups_absent)
    then show ?thesis using e True dl dg dis nl ng set_remove1_subset [of old l] by auto
  next
    case False
    have "distinct (grouped (rename_in_groups old new gs))" using Cons.IH dg ng by simp
    moreover have "set l \<inter> set (grouped (rename_in_groups old new gs)) = {}"
      using dis nl set_grouped_rename [of old new gs] by blast
    ultimately show ?thesis using e False dl by auto
  qed
qed

lemma fold_import_one_group_groups:
  assumes "distinct (map fst xs)" and "\<forall>k \<in> set (map fst xs). \<not> has_key k (parent_groups s)"
  shows "parent_groups (fold (import_one_group d) xs s)
           = parent_groups s @ map (\<lambda>(k, l). (k, filter (\<lambda>n. has_key n (sets s)) l)) xs
         \<and> sets (fold (import_one_group d) xs s) = sets s"
  using assms
proof (induction xs arbitrary: s)
  case Nil
  then show ?case by simp
next
  case (Cons e xs)
  obtain k l where e: "e = (k, l)" by (cases e)
  let ?s = "import_one_group d e s"
  have pg: "parent_groups ?s = parent_groups s @ [(k, filter (\<lambda>n. has_key n (sets s)) l)]"
    and st: "sets ?s = sets s"
    using Cons.prems(2) e by (simp_all add: import_one_group_def Let_def update_fresh)
  have "\<forall>j \<in> set (map fst xs). \<not> has_key j (parent_groups ?s)"
    using Cons.prems e pg by (auto simp: has_key_def)
  then show ?case using Cons.IH [of ?s] Cons.prems(1) pg st e by simp
qed

lemma distinct_grouped_filter:
  "distinct (grouped xs) \<Longrightarrow> distinct (grouped (map (\<lambda>(k, l). (k, filter P l)) xs))"
proof (induction xs)
  case Nil
  then show ?case by simp
next
  case (Cons e xs)
  have "set (grouped (map (\<lambda>(k, l). (k, filter P l)) xs)) \<subseteq> set (grouped xs)"
    by (induction xs) auto
  then show ?case using Cons by (cases e) auto
qed

lemma fold_import_one_set_groups [simp]:
  "parent_groups (fold (import_one_set h d) xs s) = parent_groups s"
  by (induction xs arbitrary: s) (simp_all add: import_one_set_def Let_def)

lemma fold_import_one_parent_groups [simp]:
  "parent_groups (fold import_one_parent xs s) = parent_groups s"
  by (induction xs arbitrary: s) (simp_all add: import_one_parent_def Let_def)

lemma import_background_groups [simp]:
  "parent_groups (import_background h p d s) = parent_groups s"
  by (simp add: import_background_def split: option.splits)

lemma single_membership_import:
  assumes "single_membership s" and "keeps_single_membership (ImportSets file_path fs) s"
  shows "single_membership (snd (import_sets h file_path s fs))"
proof (cases rule: import_sets_shape [where h = h and file_path = file_path and s = s and fs = fs])
  case (unchanged e)
  then show ?thesis using assms by simp
next
  case (interrupted d channels xs)
  then show ?thesis by (simp add: single_membership_def clear_registries_def)
next
  case (imported d channels xs)
  let ?s3 = "fold import_one_parent (or_empty (doc_parents d))
               (fold (import_one_set h d) xs
                  (clear_registries (s\<lparr>active_channels := channels\<rparr>)))"
  have e: "parent_groups ?s3 = []" by (simp add: clear_registries_def)
  have k: "distinct (map fst (or_empty (doc_parent_groups d)))"
    and g: "distinct (grouped (or_empty (doc_parent_groups d)))"
    using assms(2) imported(1) by simp_all
  have "parent_groups (fold (import_one_group d) (or_empty (doc_parent_groups d)) ?s3)
          = map (\<lambda>(k, l). (k, filter (\<lambda>n. has_key n (sets ?s3)) l)) (or_empty (doc_parent_groups d))"
    using fold_import_one_group_groups [OF k, of ?s3 d] e by (simp add: has_key_def)
  then show ?thesis
    using imported(2) distinct_grouped_filter [OF g] by (simp add: single_membership_def)
qed

lemma single_membership_rename_group:
  assumes "single_membership s"
  shows "single_membership (snd (rename_parent_group old new s))"
  using assms distinct_grouped_move [of "parent_groups s" old new]
  by (auto simp: rename_parent_group_def single_membership_def)

lemma has_key_delete [simp]: "has_key k (AList.delete j d) = (k \<noteq> j \<and> has_key k d)"
  by (auto simp: has_key_def delete_keys)

lemma delete_set_groups: "parent_groups (snd (delete_set name s)) = parent_groups s"
  by (simp add: delete_set_def Let_def remove_set_from_group_def)

lemma single_membership_delete_set:
  "single_membership s \<Longrightarrow> single_membership (snd (delete_set name s))"
  by (simp add: single_membership_def delete_set_groups)

lemma single_membership_rename_set:
  assumes "single_membership s" and "new \<notin> set (grouped (parent_groups s))"
  shows "single_membership (snd (rename_set old new s))"
  using assms by (auto simp: rename_set_def single_membership_def distinct_grouped_rename)

lemma groups_of_after_add:
  assumes "x \<notin> set (grouped gs)" and "has_key g gs"
  shows "map fst (filter (\<lambda>(k, m). x \<in> set m) (AList.update g (dict_at gs g @ [x]) gs)) = [g]"
  using assms
proof (induction gs)
  case Nil
  then show ?case by (simp add: has_key_def)
next
  case (Cons e gs)
  obtain k l where e: "e = (k, l)" by (cases e)
  have xl: "x \<notin> set l" and xg: "x \<notin> set (grouped gs)" using Cons.prems(1) e by auto
  show ?case
  proof (cases "k = g")
    case True
    have "filter (\<lambda>(k, m). x \<in> set m) gs = []"
      using xg by (induction gs) auto
    then show ?thesis using True e by (simp add: dict_at_def)
  next
    case False
    then have "has_key g gs" using Cons.prems(2) e by (simp add: has_key_def)
    moreover have "dict_at (e # gs) g = dict_at gs g" using False e by (simp add: dict_at_def)
    ultimately show ?thesis using Cons.IH xg xl False e by simp
  qed
qed

lemma count_list_remove1: "count_list (remove1 x m) x = count_list m x - 1"
  by (induction m) auto

lemma at_most_remove_all:
  "list_all (\<lambda>(g, m). count_list m x \<le> Suc n) gs
   \<Longrightarrow> list_all (\<lambda>(g, m). count_list m x \<le> n) (remove_from_all_groups x gs)"
  by (induction gs) (auto simp: remove_from_all_groups_def count_list_remove1)

lemma at_most_zero:
  "list_all (\<lambda>(g, m). count_list m x \<le> 0) gs \<Longrightarrow> x \<notin> set (grouped gs)"
  by (induction gs) (auto simp: count_list_0_iff)

lemma at_most_update:
  "list_all (\<lambda>(g, m). count_list m x \<le> n) gs \<Longrightarrow> count_list v x \<le> n
   \<Longrightarrow> list_all (\<lambda>(g, m). count_list m x \<le> n) (AList.update k v gs)"
  by (induction gs) auto

lemma add_leaves_listed_once:
  assumes "listed_at_most 2 x s" and a: "add_set_to_group x g s = (Inr (), s1)"
  shows "listed_once x s1"
proof -
  let ?gs = "remove_from_all_groups x (parent_groups s)"
  have "list_all (\<lambda>(g, m). count_list m x \<le> Suc 1) (parent_groups s)"
    using assms(1) by (simp add: listed_at_most_def numeral_2_eq_2)
  then have r: "list_all (\<lambda>(g, m). count_list m x \<le> 1) ?gs" by (rule at_most_remove_all)
  have "x \<notin> set (dict_at ?gs g) \<Longrightarrow> count_list (dict_at ?gs g @ [x]) x \<le> 1"
    by (simp add: count_list_0_iff)
  then have "list_all (\<lambda>(g, m). count_list m x \<le> 1)
               (if x \<notin> set (dict_at ?gs g) then AList.update g (dict_at ?gs g @ [x]) ?gs else ?gs)"
    using r at_most_update [OF r] by simp
  moreover have "parent_groups s1
      = (if x \<notin> set (dict_at ?gs g) then AList.update g (dict_at ?gs g @ [x]) ?gs else ?gs)"
    using a by (auto simp: add_set_to_group_def Let_def split: if_splits)
  ultimately show ?thesis by (simp add: listed_once_def)
qed

lemma add_only_group:
  assumes "listed_once x s" and a: "add_set_to_group x g s = (Inr (), s1)"
  shows "groups_of x s1 = [g]"
proof -
  let ?gs = "remove_from_all_groups x (parent_groups s)"
  have k: "has_key g (parent_groups s)" using a by (auto simp: add_set_to_group_def split: if_splits)
  have "list_all (\<lambda>(g, m). count_list m x \<le> Suc 0) (parent_groups s)"
    using assms(1) by (simp add: listed_once_def)
  then have nx: "x \<notin> set (grouped ?gs)" using at_most_remove_all at_most_zero by blast
  have m: "map_of ?gs g = Some (dict_at ?gs g)" using k by (simp add: has_key_map_of)
  have "x \<notin> set (dict_at ?gs g)" using nx members_subset [OF m] by auto
  then have "parent_groups s1 = AList.update g (dict_at ?gs g @ [x]) ?gs"
    using a by (auto simp: add_set_to_group_def Let_def split: if_splits)
  then show ?thesis using groups_of_after_add [OF nx] k by (simp add: groups_of_def)
qed

lemma listed_once_at_most: "listed_once x s \<Longrightarrow> listed_at_most 2 x s"
  by (induction "parent_groups s" arbitrary: s) (auto simp: listed_once_def listed_at_most_def list_all_iff)

lemma one_set_two_groups_groups: "parent_groups one_set_two_groups = [(''G1'', []), (''G2'', [])]"
  unfolding one_set_two_groups_def by code_simp

lemma import_shared_groups:
  "parent_groups (snd (import_sets all_exist ''sets.json'' init [''sets.json'' \<mapsto> Dict shared_doc]))
     = [(''G1'', [''A'']), (''G2'', [''A''])]"
  by code_simp

text \<open>
  Claim C6, as amended. The initial state has single membership, and an operation run
  in a state with single membership, under its side condition
  \<open>keeps_single_membership\<close> (none for the operations other than \<^verbatim>\<open>rename_set\<close> and
  \<^verbatim>\<open>import_sets\<close>), leaves a state with single membership. Where no group list holds
  the name of a set more than once, with or without single membership,
  \<^verbatim>\<open>add_set_to_group\<close> leaves the set in the given group and in no other, and again
  no group list holds its name more than once. Where no group list holds the name more
  than twice, adding the set to a group and then to a second group leaves it in the
  second group only.
\<close>

theorem single_membership_kept:
  "single_membership init
   \<and> (single_membership s \<and> keeps_single_membership op s \<and> exec h op s = Some s'
        \<longrightarrow> single_membership s')
   \<and> (listed_once set_name s \<and> add_set_to_group set_name g1 s = (Inr (), s1)
        \<longrightarrow> groups_of set_name s1 = [g1] \<and> listed_once set_name s1)
   \<and> (listed_at_most 2 set_name s \<and> add_set_to_group set_name g1 s = (Inr (), s1) \<and>
       add_set_to_group set_name g2 s1 = (Inr (), s2) \<longrightarrow> groups_of set_name s2 = [g2])"
proof (intro conjI impI)
  show "single_membership init" by (simp add: single_membership_def init_def)
next
  assume "listed_once set_name s \<and> add_set_to_group set_name g1 s = (Inr (), s1)"
  then show "groups_of set_name s1 = [g1]" using add_only_group by blast
next
  assume "listed_once set_name s \<and> add_set_to_group set_name g1 s = (Inr (), s1)"
  then show "listed_once set_name s1" using add_leaves_listed_once listed_once_at_most by blast
next
  assume "listed_at_most 2 set_name s \<and> add_set_to_group set_name g1 s = (Inr (), s1) \<and>
          add_set_to_group set_name g2 s1 = (Inr (), s2)"
  then show "groups_of set_name s2 = [g2]" using add_leaves_listed_once add_only_group by blast
next
  assume a: "single_membership s \<and> keeps_single_membership op s \<and> exec h op s = Some s'"
  then have assms: "single_membership s" by simp
  show "single_membership s'"
  proof (cases op)
    case (CreateParentGroup name)
    then show ?thesis using a assms
      by (auto simp: create_parent_group_def Let_def single_membership_def distinct_grouped_update_empty)
  next
    case (AddSetToGroup x g)
    then show ?thesis using a assms single_membership_add by auto
  next
    case (RemoveSetFromGroup x g)
    then show ?thesis using a assms single_membership_remove by auto
  next
    case (RenameParentGroup old new)
    then show ?thesis using a assms single_membership_rename_group by auto
  next
    case (DeleteParentGroup name)
    then show ?thesis using a assms
      by (auto simp: delete_parent_group_def single_membership_def distinct_grouped_delete)
  next
    case (CreateSet name sel)
    then show ?thesis using a assms by (auto simp: create_set_def Let_def single_membership_def)
  next
    case (RenameSet old new)
    then show ?thesis using a assms single_membership_rename_set by auto
  next
    case (DeleteSet name)
    then show ?thesis using a assms single_membership_delete_set by auto
  next
    case (SetParent c p)
    then show ?thesis using a assms
      by (auto simp: set_parent_def single_membership_def split: if_splits option.splits bool.splits)
  next
    case (ImportSets file_path fs)
    then show ?thesis using a assms single_membership_import by auto
  qed (use a assms in \<open>auto simp: single_membership_def plain_op_defs split: if_splits\<close>)
qed

theorem single_membership_kept_witness:
  "single_membership one_set_two_groups
   \<and> keeps_single_membership (AddSetToGroup ''A'' ''G1'') one_set_two_groups
   \<and> exec all_exist (AddSetToGroup ''A'' ''G1'') one_set_two_groups
       = Some (snd (add_set_to_group ''A'' ''G1'' one_set_two_groups))
   \<and> single_membership (snd (add_set_to_group ''A'' ''G1'' one_set_two_groups))
   \<and> groups_of ''A'' in_two_groups = [''G1'', ''G2'']
   \<and> listed_once ''A'' in_two_groups \<and> listed_at_most 2 ''A'' in_two_groups
   \<and> add_set_to_group ''A'' ''G1'' in_two_groups
       = (Inr (), snd (add_set_to_group ''A'' ''G1'' in_two_groups))
   \<and> groups_of ''A'' (snd (add_set_to_group ''A'' ''G1'' in_two_groups)) = [''G1'']
   \<and> add_set_to_group ''A'' ''G2'' (snd (add_set_to_group ''A'' ''G1'' in_two_groups))
       = (Inr (), snd (add_set_to_group ''A'' ''G2''
                   (snd (add_set_to_group ''A'' ''G1'' in_two_groups))))
   \<and> groups_of ''A'' (snd (add_set_to_group ''A'' ''G2''
                   (snd (add_set_to_group ''A'' ''G1'' in_two_groups)))) = [''G2'']"
proof -
  let ?t = "snd (add_set_to_group ''A'' ''G1'' one_set_two_groups)"
  let ?s1 = "snd (add_set_to_group ''A'' ''G1'' in_two_groups)"
  let ?s2 = "snd (add_set_to_group ''A'' ''G2'' ?s1)"
  have h: "single_membership one_set_two_groups"
    by (simp add: single_membership_def one_set_two_groups_groups)
  have k: "keeps_single_membership (AddSetToGroup ''A'' ''G1'') one_set_two_groups" by simp
  have e: "exec all_exist (AddSetToGroup ''A'' ''G1'') one_set_two_groups = Some ?t" by simp
  have g: "parent_groups in_two_groups = [(''G1'', [''A'']), (''G2'', [''A''])]"
    by (simp add: in_two_groups_def import_shared_groups)
  have b: "groups_of ''A'' in_two_groups = [''G1'', ''G2'']" by (simp add: groups_of_def g)
  have l1: "listed_once ''A'' in_two_groups" by (simp add: listed_once_def g)
  have l2: "listed_at_most 2 ''A'' in_two_groups" by (simp add: listed_at_most_def g)
  have "fst (add_set_to_group ''A'' ''G1'' in_two_groups) = Inr ()"
    unfolding in_two_groups_def by code_simp
  then have a1: "add_set_to_group ''A'' ''G1'' in_two_groups = (Inr (), ?s1)"
    by (simp add: prod_eq_iff)
  have "fst (add_set_to_group ''A'' ''G2'' ?s1) = Inr ()"
    unfolding in_two_groups_def by code_simp
  then have a2: "add_set_to_group ''A'' ''G2'' ?s1 = (Inr (), ?s2)"
    by (simp add: prod_eq_iff)
  have "single_membership ?t"
    using h k e
      single_membership_kept [of one_set_two_groups "AddSetToGroup ''A'' ''G1''" all_exist ?t]
    by blast
  moreover have "groups_of ''A'' ?s1 = [''G1''] \<and> groups_of ''A'' ?s2 = [''G2'']"
    using l1 l2 a1 a2
      single_membership_kept [of in_two_groups _ _ _ "''A''" "''G1''" ?s1 "''G2''" ?s2]
    by blast
  ultimately show ?thesis using h k e b l1 l2 a1 a2 by blast
qed

text \<open>
  Claim C6 as stated fails for \<^verbatim>\<open>import_sets\<close>: the loop over the imported groups
  filters the members for existence only, so a file that lists \<open>A\<close> in two groups
  leaves \<open>A\<close> in both. And after importing a file whose group \<open>G1\<close> lists \<open>A\<close>
  three times, \<^verbatim>\<open>add_set_to_group\<close> takes one \<open>A\<close> out of \<open>G1\<close> each time: \<open>A\<close>
  added to \<open>G2\<close> is in \<open>G1\<close> and \<open>G2\<close>, and added to \<open>G3\<close> after that it is in \<open>G1\<close>
  and \<open>G3\<close>.
\<close>

theorem import_two_groups_counterexample:
  "single_membership init
   \<and> \<not> single_membership
        (snd (import_sets all_exist ''sets.json'' init [''sets.json'' \<mapsto> Dict shared_doc]))
   \<and> groups_of ''A''
        (snd (import_sets all_exist ''sets.json'' init [''sets.json'' \<mapsto> Dict shared_doc]))
       = [''G1'', ''G2'']
   \<and> groups_of ''A'' thrice_listed = [''G1'']
   \<and> fst (add_set_to_group ''A'' ''G2'' thrice_listed) = Inr ()
   \<and> groups_of ''A'' (snd (add_set_to_group ''A'' ''G2'' thrice_listed)) = [''G1'', ''G2'']
   \<and> fst (add_set_to_group ''A'' ''G3'' (snd (add_set_to_group ''A'' ''G2'' thrice_listed)))
       = Inr ()
   \<and> groups_of ''A''
        (snd (add_set_to_group ''A'' ''G3'' (snd (add_set_to_group ''A'' ''G2'' thrice_listed))))
       = [''G1'', ''G3'']"
proof -
  have "groups_of ''A'' thrice_listed = [''G1'']
   \<and> fst (add_set_to_group ''A'' ''G2'' thrice_listed) = Inr ()
   \<and> groups_of ''A'' (snd (add_set_to_group ''A'' ''G2'' thrice_listed)) = [''G1'', ''G2'']
   \<and> fst (add_set_to_group ''A'' ''G3'' (snd (add_set_to_group ''A'' ''G2'' thrice_listed)))
       = Inr ()
   \<and> groups_of ''A''
        (snd (add_set_to_group ''A'' ''G3'' (snd (add_set_to_group ''A'' ''G2'' thrice_listed))))
       = [''G1'', ''G3'']"
    unfolding thrice_listed_def by code_simp
  moreover have "single_membership init" by (simp add: single_membership_def init_def)
  ultimately show ?thesis
    by (simp add: single_membership_def groups_of_def import_shared_groups)
qed

section \<open>Deleting a set that is in a group\<close>

text \<open>
  Claim C9, at the input where the code departs from it. \<^verbatim>\<open>delete_set("A")\<close> succeeds
  and deletes the set, and the group \<open>G1\<close> still lists \<open>A\<close> afterwards: the call
  \<^verbatim>\<open>self.remove_set_from_group(name)\<close> at the end of \<^verbatim>\<open>delete_set\<close> finds the name
  no longer in \<^verbatim>\<open>self.sets\<close> and returns before it touches a group.
\<close>

theorem delete_set_leaves_group_entry:
  "has_key ''A'' (sets grouped_set)
   \<and> parent_groups grouped_set = [(''G1'', [''A'']), (''G2'', [])]
   \<and> fst (delete_set ''A'' grouped_set) = Inr ()
   \<and> \<not> has_key ''A'' (sets (snd (delete_set ''A'' grouped_set)))
   \<and> parent_groups (snd (delete_set ''A'' grouped_set)) = [(''G1'', [''A'']), (''G2'', [])]"
  unfolding grouped_set_def one_set_two_groups_def by code_simp

section \<open>Names that are taken\<close>




lemma has_key_update [simp]: "has_key k (AList.update n v d) = (k = n \<or> has_key k d)"
  by (auto simp: has_key_def update_keys)






section \<open>Renaming a set\<close>

lemma has_key_iff: "has_key k d = (map_of d k \<noteq> None)"
  by (simp add: has_key_def map_of_eq_None_iff)

lemma moved_value:
  assumes "\<not> has_key new d \<or> has_key old d" and "old \<noteq> new"
  shows "map_of (move_key old new d) new = map_of d old"
  using assms by (auto simp: map_of_move_key has_key_iff)

lemma moved_away: "old \<noteq> new \<Longrightarrow> \<not> has_key old (move_key old new d)"
  by (auto simp: has_key_iff map_of_move_key)

lemma moved_other:
  "k \<noteq> old \<Longrightarrow> k \<noteq> new \<Longrightarrow> map_of (move_key old new d) k = map_of d k"
  by (simp add: map_of_move_key)

lemma has_key_repoint [simp]: "has_key k (repoint_children old new sp) = has_key k sp"
  by (simp add: has_key_iff map_of_repoint)

lemma repoint_no_reference:
  "new \<noteq> Some old \<Longrightarrow> Some old \<notin> set (map snd (repoint_children old new sp))"
  by (auto simp: repoint_children_def split: if_splits)

lemma remove1_single: "count_list m x \<le> 1 \<Longrightarrow> x \<notin> set (remove1 x m)"
proof (induction m)
  case Nil
  then show ?case by simp
next
  case (Cons a m)
  show ?case
  proof (cases "a = x")
    case True
    then have "count_list m x = 0" using Cons.prems by simp
    then show ?thesis using True by (simp add: count_list_0_iff)
  next
    case False
    then show ?thesis using Cons by simp
  qed
qed

lemma renamed_groups_no_reference:
  assumes "list_all (\<lambda>(g, members). count_list members old \<le> 1) gs" and "old \<noteq> new"
  shows "old \<notin> set (grouped (rename_in_groups old new gs))"
  using assms
proof (induction gs)
  case Nil
  then show ?case by simp
next
  case (Cons e gs)
  obtain k l where e: "e = (k, l)" by (cases e)
  have "count_list l old \<le> 1" using Cons.prems e by simp
  then have "old \<notin> set (remove1 old l)" by (rule remove1_single)
  then show ?case using Cons e by auto
qed

lemma renamed_groups_keys: "map fst (rename_in_groups old new gs) = map fst gs"
  by (induction gs) auto

lemma renamed_groups_with:
  "(g, m) \<in> set gs \<Longrightarrow> old \<in> set m \<Longrightarrow> (g, remove1 old m @ [new]) \<in> set (rename_in_groups old new gs)"
  by (induction gs) auto

lemma renamed_groups_without:
  "(g, m) \<in> set gs \<Longrightarrow> old \<notin> set m \<Longrightarrow> (g, m) \<in> set (rename_in_groups old new gs)"
  by (induction gs) auto

lemma consistent_key:
  "set (map fst d) \<subseteq> set (map fst e) \<Longrightarrow> \<not> has_key k e \<Longrightarrow> \<not> has_key k d"
  by (auto simp: has_key_def)

lemma family_in_group_eq:
  "family_in_group = nested_pair\<lparr>parent_groups := [(''G1'', [''A''])],
     group_positions := [(''G1'', (60, 60))], group_colors := [(''G1'', (100, 100, 60))],
     group_sizes := [(''G1'', (300, 200))], group_transparency := [(''G1'', 180)]\<rparr>"
  unfolding family_in_group_def nested_pair_eq two_sets_eq by code_simp

text \<open>
  Claim C5, as amended. Let \<open>X\<close> be an existing set listed once, \<open>Y\<close> a name not used
  by a set, in a state whose registries are consistent. Then \<^verbatim>\<open>rename_set(X, Y)\<close>
  succeeds; the objects, position, colour, size, transparency and parent pointer of
  \<open>X\<close> are found under \<open>Y\<close>; every parent pointer that was \<open>X\<close> is \<open>Y\<close>; every group
  list that held \<open>X\<close> holds \<open>Y\<close> in its place (at the end) and the others are as
  before; and \<open>X\<close> is no key of a set dictionary, no parent pointer and in no group
  list.
\<close>

theorem rename_set_moves_bundle:
  assumes x: "has_key X (sets s)" and y: "\<not> has_key Y (sets s)"
    and c: "registries_consistent s" and o: "listed_once X s"
  shows "\<exists>s'. rename_set X Y s = (Inr (), s')
     \<and> map_of (sets s') Y = map_of (sets s) X
     \<and> map_of (set_positions s') Y = map_of (set_positions s) X
     \<and> map_of (set_colors s') Y = map_of (set_colors s) X
     \<and> map_of (set_sizes s') Y = map_of (set_sizes s) X
     \<and> map_of (set_transparency s') Y = map_of (set_transparency s) X
     \<and> map_of (set_parents s') Y
         = map_option (\<lambda>p. if p = Some X then Some Y else p) (map_of (set_parents s) X)
     \<and> (\<forall>k. k \<noteq> X \<and> k \<noteq> Y \<longrightarrow>
           map_of (set_parents s') k
             = map_option (\<lambda>p. if p = Some X then Some Y else p) (map_of (set_parents s) k))
     \<and> \<not> has_key X (sets s') \<and> \<not> has_key X (set_positions s')
     \<and> \<not> has_key X (set_colors s') \<and> \<not> has_key X (set_sizes s')
     \<and> \<not> has_key X (set_transparency s') \<and> \<not> has_key X (set_parents s')
     \<and> Some X \<notin> set (map snd (set_parents s'))
     \<and> X \<notin> set (grouped (parent_groups s'))
     \<and> map fst (parent_groups s') = map fst (parent_groups s)
     \<and> (\<forall>g m. (g, m) \<in> set (parent_groups s) \<and> X \<in> set m \<longrightarrow>
           (g, remove1 X m @ [Y]) \<in> set (parent_groups s'))
     \<and> (\<forall>g m. (g, m) \<in> set (parent_groups s) \<and> X \<notin> set m \<longrightarrow>
           (g, m) \<in> set (parent_groups s'))"
proof -
  have ne: "X \<noteq> Y" using x y by auto
  have ny: "\<not> has_key Y (set_positions s)" "\<not> has_key Y (set_colors s)"
    "\<not> has_key Y (set_sizes s)" "\<not> has_key Y (set_transparency s)"
    "\<not> has_key Y (set_parents s)"
    using c y unfolding registries_consistent_def sub_keys_def has_key_def by auto
  let ?s' = "snd (rename_set X Y s)"
  have r: "rename_set X Y s = (Inr (), ?s')" using x y by (simp add: rename_set_def)
  have f: "sets ?s' = move_key X Y (sets s)"
    "set_positions ?s' = move_key X Y (set_positions s)"
    "set_colors ?s' = move_key X Y (set_colors s)"
    "set_sizes ?s' = move_key X Y (set_sizes s)"
    "set_transparency ?s' = move_key X Y (set_transparency s)"
    "set_parents ?s' = repoint_children X (Some Y) (move_key X Y (set_parents s))"
    "parent_groups ?s' = rename_in_groups X Y (parent_groups s)"
    using x y by (simp_all add: rename_set_def)
  have g: "X \<notin> set (grouped (parent_groups ?s'))"
    using o ne unfolding f listed_once_def by (rule renamed_groups_no_reference)
  have p1: "map_of (set_parents ?s') Y
         = map_option (\<lambda>p. if p = Some X then Some Y else p) (map_of (set_parents s) X)"
    using ny(5) ne by (simp add: f map_of_repoint moved_value)
  have p2: "\<forall>k. k \<noteq> X \<and> k \<noteq> Y \<longrightarrow>
           map_of (set_parents ?s') k
             = map_option (\<lambda>p. if p = Some X then Some Y else p) (map_of (set_parents s) k)"
    by (simp add: f map_of_repoint moved_other)
  have p3: "Some X \<notin> set (map snd (set_parents ?s'))"
    unfolding f using ne by (intro repoint_no_reference) simp
  have m: "map_of (sets ?s') Y = map_of (sets s) X"
    "map_of (set_positions ?s') Y = map_of (set_positions s) X"
    "map_of (set_colors ?s') Y = map_of (set_colors s) X"
    "map_of (set_sizes ?s') Y = map_of (set_sizes s) X"
    "map_of (set_transparency ?s') Y = map_of (set_transparency s) X"
    using y ny ne by (simp_all add: f moved_value)
  have a: "\<not> has_key X (sets ?s')" "\<not> has_key X (set_positions ?s')"
    "\<not> has_key X (set_colors ?s')" "\<not> has_key X (set_sizes ?s')"
    "\<not> has_key X (set_transparency ?s')" "\<not> has_key X (set_parents ?s')"
    using ne by (simp_all add: f moved_away)
  have k: "map fst (parent_groups ?s') = map fst (parent_groups s)"
    by (simp add: f renamed_groups_keys)
  have w: "\<forall>g m. (g, m) \<in> set (parent_groups s) \<and> X \<in> set m \<longrightarrow>
           (g, remove1 X m @ [Y]) \<in> set (parent_groups ?s')"
    "\<forall>g m. (g, m) \<in> set (parent_groups s) \<and> X \<notin> set m \<longrightarrow>
           (g, m) \<in> set (parent_groups ?s')"
    by (auto simp: f intro: renamed_groups_with renamed_groups_without)
  show ?thesis
    apply (rule exI [of _ ?s'])
    using r m p1 p2 a p3 g k w by blast
qed

theorem rename_set_moves_bundle_witness:
  "has_key ''A'' (sets family_in_group) \<and> \<not> has_key ''C'' (sets family_in_group)
   \<and> registries_consistent family_in_group \<and> listed_once ''A'' family_in_group
   \<and> (\<exists>s'. rename_set ''A'' ''C'' family_in_group = (Inr (), s')
         \<and> map_of (sets s') ''C'' = Some [''pCube1'']
         \<and> map_of (set_parents s') ''B'' = Some (Some ''C'')
         \<and> \<not> has_key ''A'' (sets s')
         \<and> ''A'' \<notin> set (grouped (parent_groups s'))
         \<and> (''G1'', [''C'']) \<in> set (parent_groups s'))"
proof -
  have e: "family_in_group = nested_pair\<lparr>parent_groups := [(''G1'', [''A''])],
     group_positions := [(''G1'', (60, 60))], group_colors := [(''G1'', (100, 100, 60))],
     group_sizes := [(''G1'', (300, 200))], group_transparency := [(''G1'', 180)]\<rparr>"
    by (rule family_in_group_eq)
  have h1: "has_key ''A'' (sets family_in_group)"
    and h2: "\<not> has_key ''C'' (sets family_in_group)"
    by (simp_all add: e nested_pair_eq two_sets_eq has_key_def)
  have h3: "registries_consistent family_in_group"
    by (simp add: e nested_pair_eq two_sets_eq init_def registries_consistent_def sub_keys_def)
  have h4: "listed_once ''A'' family_in_group" by (simp add: e listed_once_def)
  have v: "map_of (sets family_in_group) ''A'' = Some [''pCube1'']"
    "map_of (set_parents family_in_group) ''B'' = Some (Some ''A'')"
    "(''G1'', [''A'']) \<in> set (parent_groups family_in_group)"
    by (simp_all add: e nested_pair_eq two_sets_eq)
  from rename_set_moves_bundle [OF h1 h2 h3 h4] obtain s' where
    r: "rename_set ''A'' ''C'' family_in_group = (Inr (), s')"
    and a: "map_of (sets s') ''C'' = map_of (sets family_in_group) ''A''"
    and b: "\<forall>k. k \<noteq> ''A'' \<and> k \<noteq> ''C'' \<longrightarrow>
           map_of (set_parents s') k
             = map_option (\<lambda>p. if p = Some ''A'' then Some ''C'' else p)
                 (map_of (set_parents family_in_group) k)"
    and c: "\<not> has_key ''A'' (sets s')" and d: "''A'' \<notin> set (grouped (parent_groups s'))"
    and g: "\<forall>g m. (g, m) \<in> set (parent_groups family_in_group) \<and> ''A'' \<in> set m \<longrightarrow>
           (g, remove1 ''A'' m @ [''C'']) \<in> set (parent_groups s')"
    by blast
  have "map_of (set_parents s') ''B'' = Some (Some ''C'')" using b v(2) by simp
  moreover have "(''G1'', [''C'']) \<in> set (parent_groups s')" using g v(3) by fastforce
  ultimately show ?thesis using h1 h2 h3 h4 r a v(1) c d by auto
qed

text \<open>
  Claim C5 as stated fails when a group lists the set twice, as after importing a
  file that does: \<^verbatim>\<open>sets.remove(old_name)\<close> deletes one occurrence, and the other
  stays behind as a reference to a set that no longer exists.
\<close>

theorem rename_set_duplicate_counterexample:
  "has_key ''A'' (sets dup_state) \<and> \<not> has_key ''B'' (sets dup_state)
   \<and> parent_groups dup_state = [(''G1'', [''A'', ''A''])]
   \<and> fst (rename_set ''A'' ''B'' dup_state) = Inr ()
   \<and> parent_groups (snd (rename_set ''A'' ''B'' dup_state)) = [(''G1'', [''A'', ''B''])]
   \<and> \<not> has_key ''A'' (sets (snd (rename_set ''A'' ''B'' dup_state)))"
  unfolding dup_state_def by code_simp

section \<open>Export followed by import\<close>

lemma surviving_sets_Nil [simp]: "surviving_sets h [] = []"
  by (simp add: surviving_sets_def)

lemma surviving_sets_Cons:
  "surviving_sets h ((n, l) # xs)
     = (if filter (obj_exists h) l \<noteq> [] then [(n, filter (obj_exists h) l)] else [])
       @ surviving_sets h xs"
  by (simp add: surviving_sets_def)

lemma fold_import_one_set_surviving:
  assumes "distinct (map fst xs)" and "set (map fst xs) \<inter> set (map fst (sets st)) = {}"
  shows "sets (fold (import_one_set h d) xs st) = sets st @ surviving_sets h xs"
  using assms
proof (induction xs arbitrary: st)
  case Nil
  then show ?case by simp
next
  case (Cons e xs)
  obtain n l where e: "e = (n, l)" by (cases e)
  have fresh: "\<not> has_key n (sets st)" using Cons.prems(2) e by (auto simp: has_key_def)
  let ?st = "import_one_set h d e st"
  have s1: "sets ?st = sets st @ (if filter (obj_exists h) l \<noteq> [] then [(n, filter (obj_exists h) l)] else [])"
    using fresh e by (simp add: import_one_set_def Let_def update_fresh)
  have "set (map fst xs) \<inter> set (map fst (sets ?st)) = {}"
    using Cons.prems(1,2) e s1 by auto
  then have "sets (fold (import_one_set h d) xs ?st) = sets ?st @ surviving_sets h xs"
    using Cons.IH [of ?st] Cons.prems e by simp
  then show ?case using s1 e by (simp add: surviving_sets_Cons)
qed

lemma surviving_sets_unmodified:
  assumes "list_all (obj_exists h) (concat (map snd xs))" and "[] \<notin> set (map snd xs)"
  shows "surviving_sets h xs = xs"
  using assms
proof (induction xs)
  case Nil
  then show ?case by simp
next
  case (Cons e xs)
  obtain n l where e: "e = (n, l)" by (cases e)
  have "filter (obj_exists h) l = l" and "l \<noteq> []"
    using Cons.prems e by (auto simp: list_all_iff)
  then show ?case using Cons e by (simp add: surviving_sets_Cons)
qed

lemma fold_import_one_parent_sets [simp]:
  "sets (fold import_one_parent ps st) = sets st"
  by (induction ps arbitrary: st) (simp_all add: import_one_parent_def Let_def)

lemma fold_import_one_group_sets [simp]:
  "sets (fold (import_one_group d) xs st) = sets st"
  by (induction xs arbitrary: st) (simp_all add: import_one_group_def Let_def)

lemma import_background_sets [simp]: "sets (import_background h p d st) = sets st"
  by (simp add: import_background_def split: option.splits)

lemma fold_import_one_parent_kept:
  assumes "distinct (map fst ps)" and "set (map fst ps) \<inter> set (map fst (set_parents st)) = {}"
  shows "set_parents (fold import_one_parent ps st) = set_parents st @ kept_parents (sets st) ps"
  using assms
proof (induction ps arbitrary: st)
  case Nil
  then show ?case by (simp add: kept_parents_def)
next
  case (Cons e ps)
  obtain c p where e: "e = (c, p)" by (cases e)
  have fresh: "\<not> has_key c (set_parents st)" using Cons.prems(2) e by (auto simp: has_key_def)
  let ?st = "import_one_parent e st"
  have s1: "set_parents ?st = set_parents st @ kept_parents (sets st) [e]" and s2: "sets ?st = sets st"
    using fresh e by (auto simp: import_one_parent_def Let_def update_fresh kept_parents_def)
  have "set (map fst ps) \<inter> set (map fst (set_parents ?st)) = {}"
    using Cons.prems(1,2) e s1 by (auto simp: kept_parents_def split: if_splits)
  then have "set_parents (fold import_one_parent ps ?st) = set_parents ?st @ kept_parents (sets ?st) ps"
    using Cons.IH [of ?st] Cons.prems e by simp
  then show ?case using s1 s2 by (simp add: kept_parents_def)
qed

lemma kept_parents_resolve:
  "list_all (\<lambda>(c, p). has_key c created \<and> (p = None \<or> has_key (the p) created)) ps
   \<Longrightarrow> kept_parents created ps = ps"
  by (induction ps) (auto simp: kept_parents_def)

lemma import_all_sets_exported:
  "import_all_sets h d (map (\<lambda>(name, objects). (name, Array objects)) xs) st
     = (Inr (), fold (import_one_set h d) xs st)"
  by (induction xs arbitrary: st) auto

lemma export_sets_writes:
  assumes "export_sets h file_path s fs = (Inr (), fs')"
  shows "\<exists>embedded. fs' file_path = Some (Dict (export_data s embedded))"
  using assms by (auto simp: export_sets_def split: image_read.splits if_splits)

text \<open>
  Claim C4, as amended. Let \<^verbatim>\<open>export_sets\<close> succeed on a well-formed state. Then
  \<^verbatim>\<open>import_sets\<close> of the file written, run on any manager and in any scene, succeeds
  and leaves
  \<^item> as sets the exported ones, in the same order, each with those of its objects that
    exist in the scene, a set of which no object exists being left out; and
  \<^item> as parent pointers the exported ones, in the same order, without the entries of
    the sets left out and without the entries whose parent is neither \<^verbatim>\<open>None\<close> nor
    the name of a set that is left.

  So in an unmodified scene the sets are the same with the same objects, and if the
  parent pointers resolve as well, the parent pointers are the same.
\<close>

theorem export_import_roundtrip:
  assumes e: "export_sets h file_path s fs = (Inr (), fs')" and w: "sets_well_formed s"
  shows "\<exists>s'. import_sets h' file_path s0 fs' = (Inr (), s')
           \<and> sets s' = surviving_sets h' (sets s)
           \<and> set_parents s' = kept_parents (sets s') (set_parents s)
           \<and> (scene_unmodified h' s \<longrightarrow> sets s' = sets s)
           \<and> (scene_unmodified h' s \<and> parents_resolve s \<longrightarrow> set_parents s' = set_parents s)"
proof -
  obtain embedded where f: "fs' file_path = Some (Dict (export_data s embedded))"
    using export_sets_writes [OF e] by blast
  let ?d = "export_data s embedded"
  let ?s2 = "clear_registries (s0\<lparr>active_channels :=
               import_channels (active_channels s) (active_channels s0)\<rparr>)"
  let ?s3 = "fold (import_one_set h' ?d) (sets s) ?s2"
  let ?s4 = "fold import_one_parent (set_parents s) ?s3"
  let ?s' = "import_background h' file_path ?d
               (fold (import_one_group ?d) (parent_groups s) ?s4)"
  have r: "import_sets h' file_path s0 fs' = (Inr (), ?s')"
    using f
    by (simp add: import_sets_def export_data_def or_empty_def update_channels_def
        import_all_sets_exported)
  have e2: "sets ?s2 = []" "set_parents ?s2 = []" by (simp_all add: clear_registries_def)
  have s3: "sets ?s3 = surviving_sets h' (sets s)"
    using fold_import_one_set_surviving [of "sets s" ?s2 h' ?d] w e2
    by (simp add: sets_well_formed_def)
  have "set_parents ?s3 = []" using e2 by simp
  then have s4: "set_parents ?s4 = kept_parents (sets ?s3) (set_parents s)"
    using fold_import_one_parent_kept [of "set_parents s" ?s3] w
    by (simp add: sets_well_formed_def)
  have a: "sets ?s' = surviving_sets h' (sets s)" using s3 by simp
  have b: "set_parents ?s' = kept_parents (sets ?s') (set_parents s)" using s4 by simp
  have c: "sets ?s' = sets s" if "scene_unmodified h' s"
    using a that w surviving_sets_unmodified [of h' "sets s"]
    by (simp add: scene_unmodified_def sets_well_formed_def)
  have d: "set_parents ?s' = set_parents s" if "scene_unmodified h' s" and "parents_resolve s"
    using b c [OF that(1)] that(2) kept_parents_resolve [of "sets s" "set_parents s"]
    by (simp add: parents_resolve_def)
  show ?thesis using r a b c d by blast
qed

theorem export_import_roundtrip_witness:
  "export_sets all_exist ''sets.json'' nested_pair Map.empty
     = (Inr (), snd (export_sets all_exist ''sets.json'' nested_pair Map.empty))
   \<and> sets_well_formed nested_pair
   \<and> scene_unmodified all_exist nested_pair \<and> parents_resolve nested_pair
   \<and> (\<exists>s'. import_sets all_exist ''sets.json'' init
               (snd (export_sets all_exist ''sets.json'' nested_pair Map.empty)) = (Inr (), s')
           \<and> sets s' = sets nested_pair \<and> set_parents s' = set_parents nested_pair)
   \<and> sets nested_pair = [(''A'', [''pCube1'']), (''B'', [''pSphere1''])]
   \<and> set_parents nested_pair = [(''A'', None), (''B'', Some ''A'')]
   \<and> (\<exists>s'. import_sets cube_deleted ''sets.json'' init
               (snd (export_sets all_exist ''sets.json'' nested_pair Map.empty)) = (Inr (), s')
           \<and> sets s' = [(''B'', [''pSphere1''])] \<and> set_parents s' = [])"
proof -
  let ?fs = "snd (export_sets all_exist ''sets.json'' nested_pair Map.empty)"
  have "fst (export_sets all_exist ''sets.json'' nested_pair Map.empty) = Inr ()"
    by (simp add: export_sets_def nested_pair_eq two_sets_eq init_def all_exist_def)
  then have e: "export_sets all_exist ''sets.json'' nested_pair Map.empty = (Inr (), ?fs)"
    by (simp add: prod_eq_iff)
  have w: "sets_well_formed nested_pair"
    by (simp add: sets_well_formed_def nested_pair_eq two_sets_eq)
  have u: "scene_unmodified all_exist nested_pair"
    by (simp add: scene_unmodified_def nested_pair_eq two_sets_eq all_exist_def)
  have p: "parents_resolve nested_pair"
    by (simp add: parents_resolve_def nested_pair_eq two_sets_eq has_key_def)
  have v: "sets nested_pair = [(''A'', [''pCube1'']), (''B'', [''pSphere1''])]"
    "set_parents nested_pair = [(''A'', None), (''B'', Some ''A'')]"
    by (simp_all add: nested_pair_eq two_sets_eq)
  have k: "surviving_sets cube_deleted (sets nested_pair) = [(''B'', [''pSphere1''])]"
    by (simp add: v surviving_sets_def cube_deleted_def)
  have l: "kept_parents [(''B'', [''pSphere1''])] (set_parents nested_pair) = []"
    by (simp add: v kept_parents_def has_key_def)
  have a: "\<exists>s'. import_sets all_exist ''sets.json'' init ?fs = (Inr (), s')
           \<and> sets s' = sets nested_pair \<and> set_parents s' = set_parents nested_pair"
    using export_import_roundtrip [OF e w, of all_exist init] u p by blast
  have b: "\<exists>s'. import_sets cube_deleted ''sets.json'' init ?fs = (Inr (), s')
           \<and> sets s' = [(''B'', [''pSphere1''])] \<and> set_parents s' = []"
    using export_import_roundtrip [OF e w, of cube_deleted init] k l by force
  show ?thesis using e w u p v a b by blast
qed

text \<open>
  Claim C4 as stated fails for a parent pointer that is not the name of a set:
  \<^verbatim>\<open>set_parent("A", "")\<close> records the empty string, the export writes it, and the
  import drops the entry because the empty string is neither \<^verbatim>\<open>None\<close> nor a set.
\<close>

theorem export_import_empty_parent_counterexample:
  "fst (export_sets all_exist ''sets.json'' empty_parent Map.empty) = Inr ()
   \<and> scene_unmodified all_exist empty_parent
   \<and> set_parents empty_parent = [(''A'', Some [])]
   \<and> fst (import_sets all_exist ''sets.json'' empty_parent
            (snd (export_sets all_exist ''sets.json'' empty_parent Map.empty))) = Inr ()
   \<and> set_parents (snd (import_sets all_exist ''sets.json'' empty_parent
            (snd (export_sets all_exist ''sets.json'' empty_parent Map.empty)))) = []"
  unfolding empty_parent_def scene_unmodified_def by code_simp

section \<open>Selection with channel filtering\<close>





section \<open>Failing operations\<close>

lemma exec_outcome: "exec h op s = map_option snd (outcome h op s)"
  by (cases op) (simp_all add: flag_def option.map_comp comp_def)













section \<open>Conditions that hold in every reachable state\<close>

text \<open>
  Consistent registries and well-formed sets, the conditions of the theorems on
  \<^verbatim>\<open>rename_set\<close> and on the round trip, hold in the state built by \<^verbatim>\<open>__init__\<close> and
  are kept by every operation, so they hold in every state the manager reaches.
  Single membership implies that every set is listed once.
\<close>

lemma sub_keys_refl [simp]: "sub_keys d d"
  by (simp add: sub_keys_def)

lemma sub_keys_Nil [simp]: "sub_keys [] e"
  by (simp add: sub_keys_def)

lemma keys_update: "fst ` set (AList.update k v d) = insert k (fst ` set d)"
  by (induction d) auto

lemma keys_delete: "fst ` set (AList.delete k d) = fst ` set d - {k}"
  by (induction d) auto

lemma keys_move_key:
  "fst ` set (move_key old new d)
     = (if has_key old d then insert new (fst ` set d) - {old} else fst ` set d)"
  by (simp add: move_key_def keys_update keys_delete)

lemma sub_keys_update: "sub_keys d e \<Longrightarrow> sub_keys (AList.update k v d) (AList.update k w e)"
  unfolding sub_keys_def by (simp add: keys_update subset_insertI2)

lemma sub_keys_update_right: "sub_keys d e \<Longrightarrow> sub_keys d (AList.update k w e)"
  unfolding sub_keys_def by (simp add: keys_update subset_insertI2)

lemma sub_keys_update_left: "sub_keys d e \<Longrightarrow> has_key k e \<Longrightarrow> sub_keys (AList.update k v d) e"
  unfolding sub_keys_def has_key_def by (simp add: keys_update)

lemma sub_keys_delete: "sub_keys d e \<Longrightarrow> sub_keys (AList.delete k d) (AList.delete k e)"
  unfolding sub_keys_def by (simp add: keys_delete) blast

lemma sub_keys_move:
  "sub_keys d e \<Longrightarrow> has_key old e \<Longrightarrow> sub_keys (move_key old new d) (move_key old new e)"
  unfolding sub_keys_def by (simp add: keys_move_key) (force simp: has_key_def)

lemma sub_keys_repoint [simp]: "sub_keys (repoint_children old new sp) e = sub_keys sp e"
proof -
  have "map fst (repoint_children old new sp) = map fst sp"
    by (induction sp) (auto simp: repoint_children_def)
  then show ?thesis by (simp add: sub_keys_def)
qed

lemma consistent_init: "registries_consistent init"
  by (simp add: registries_consistent_def init_def)

lemma consistent_import_one_set:
  "registries_consistent st \<Longrightarrow> registries_consistent (import_one_set h d e st)"
  by (simp add: registries_consistent_def import_one_set_def Let_def sub_keys_update
      sub_keys_update_right)

lemma consistent_import_one_parent:
  "registries_consistent st \<Longrightarrow> registries_consistent (import_one_parent e st)"
  by (simp add: registries_consistent_def import_one_parent_def Let_def sub_keys_update_left)

lemma consistent_import_one_group:
  "registries_consistent st \<Longrightarrow> registries_consistent (import_one_group d e st)"
  by (simp add: registries_consistent_def import_one_group_def Let_def)

lemma fold_invariant:
  assumes "\<And>e st. P st \<Longrightarrow> P (f e st)"
  shows "P st \<Longrightarrow> P (fold f xs st)"
  by (induction xs arbitrary: st) (auto intro: assms)

lemma consistent_import:
  assumes "registries_consistent s"
  shows "registries_consistent (snd (import_sets h file_path s fs))"
proof -
  have c: "registries_consistent (clear_registries st)" for st
    by (simp add: registries_consistent_def clear_registries_def)
  have b: "registries_consistent st \<Longrightarrow> registries_consistent (import_background h p d st)" for st p d
    by (auto simp: registries_consistent_def import_background_def split: option.splits)
  have f: "registries_consistent
          (import_background h file_path d
            (fold (import_one_group d) gs (fold import_one_parent ps
              (fold (import_one_set h d) xs (clear_registries st)))))" for d gs ps xs st
    by (intro b fold_invariant [where P = registries_consistent] consistent_import_one_group
        consistent_import_one_parent consistent_import_one_set c)
  have i: "registries_consistent (fold (import_one_set h d) xs (clear_registries st))" for d xs st
    by (intro fold_invariant [where P = registries_consistent] consistent_import_one_set c)
  show ?thesis
  proof (cases rule: import_sets_shape [where h = h and file_path = file_path and s = s and fs = fs])
    case (unchanged e)
    then show ?thesis using assms by simp
  next
    case (interrupted d channels xs)
    then show ?thesis using i by simp
  next
    case (imported d channels xs)
    then show ?thesis using f by simp
  qed
qed

lemma registries_consistent_kept:
  assumes "registries_consistent s" and "exec h op s = Some s'"
  shows "registries_consistent s'"
proof (cases op)
  case (CreateSet name sel)
  then show ?thesis using assms
    by (auto simp: registries_consistent_def create_set_def Let_def sub_keys_update)
next
  case (RenameSet old_name new_name)
  then show ?thesis using assms
    by (auto simp: registries_consistent_def rename_set_def sub_keys_move)
next
  case (DeleteSet name)
  then show ?thesis using assms
    by (auto simp: registries_consistent_def delete_set_def Let_def remove_set_from_group_def
        sub_keys_delete)
next
  case (SetParent c p)
  then show ?thesis using assms
    by (auto simp: registries_consistent_def set_parent_def sub_keys_update_left
        split: if_splits option.splits bool.splits)
next
  case (ImportSets file_path fs)
  then show ?thesis using assms consistent_import by auto
qed (use assms in \<open>auto simp: registries_consistent_def plain_op_defs Let_def sub_keys_update_left
      split: if_splits option.splits\<close>)

lemma nonempty_update:
  "[] \<notin> snd ` set d \<Longrightarrow> v \<noteq> [] \<Longrightarrow> [] \<notin> snd ` set (AList.update k v d)"
  by (induction d) auto

lemma nonempty_delete: "[] \<notin> snd ` set d \<Longrightarrow> [] \<notin> snd ` set (AList.delete k d)"
  by (induction d) auto

lemma distinct_move_key: "distinct (map fst d) \<Longrightarrow> distinct (map fst (move_key old new d))"
  by (simp add: move_key_def distinct_update distinct_delete)

lemma nonempty_move_key: "[] \<notin> snd ` set d \<Longrightarrow> [] \<notin> snd ` set (move_key old new d)"
proof (cases "has_key old d")
  case True
  assume n: "[] \<notin> snd ` set d"
  have "(old, dict_at d old) \<in> set d"
    using has_key_map_of [OF True] by (rule map_of_SomeD)
  then have "dict_at d old \<in> snd ` set d" by force
  then have "dict_at d old \<noteq> []" using n by metis
  then show ?thesis using True n by (simp add: move_key_def nonempty_update nonempty_delete)
next
  case False
  then show "[] \<notin> snd ` set d \<Longrightarrow> ?thesis" by (simp add: move_key_def)
qed

lemma distinct_repoint [simp]:
  "distinct (map fst (repoint_children old new sp)) = distinct (map fst sp)"
proof -
  have "map fst (repoint_children old new sp) = map fst sp"
    by (induction sp) (auto simp: repoint_children_def)
  then show ?thesis by simp
qed

lemma well_formed_init: "sets_well_formed init"
  by (simp add: sets_well_formed_def init_def)

lemma well_formed_import_one_set:
  "sets_well_formed st \<Longrightarrow> sets_well_formed (import_one_set h d e st)"
  by (simp add: sets_well_formed_def import_one_set_def Let_def distinct_update nonempty_update)

lemma well_formed_import_one_parent:
  "sets_well_formed st \<Longrightarrow> sets_well_formed (import_one_parent e st)"
  by (simp add: sets_well_formed_def import_one_parent_def Let_def distinct_update)

lemma well_formed_import_one_group:
  "sets_well_formed st \<Longrightarrow> sets_well_formed (import_one_group d e st)"
  by (simp add: sets_well_formed_def import_one_group_def Let_def)

lemma well_formed_import:
  assumes "sets_well_formed s"
  shows "sets_well_formed (snd (import_sets h file_path s fs))"
proof -
  have c: "sets_well_formed (clear_registries st)" for st
    by (simp add: sets_well_formed_def clear_registries_def)
  have b: "sets_well_formed st \<Longrightarrow> sets_well_formed (import_background h p d st)" for st p d
    by (simp add: sets_well_formed_def import_background_def split: option.splits)
  have f: "sets_well_formed
          (import_background h file_path d
            (fold (import_one_group d) gs (fold import_one_parent ps
              (fold (import_one_set h d) xs (clear_registries st)))))" for d gs ps xs st
    by (intro b fold_invariant [where P = sets_well_formed] well_formed_import_one_group
        well_formed_import_one_parent well_formed_import_one_set c)
  have i: "sets_well_formed (fold (import_one_set h d) xs (clear_registries st))" for d xs st
    by (intro fold_invariant [where P = sets_well_formed] well_formed_import_one_set c)
  show ?thesis
  proof (cases rule: import_sets_shape [where h = h and file_path = file_path and s = s and fs = fs])
    case (unchanged e)
    then show ?thesis using assms by simp
  next
    case (interrupted d channels xs)
    then show ?thesis using i by simp
  next
    case (imported d channels xs)
    then show ?thesis using f by simp
  qed
qed

lemma well_formed_unchanged:
  "sets s' = sets s \<Longrightarrow> set_parents s' = set_parents s \<Longrightarrow> sets_well_formed s
   \<Longrightarrow> sets_well_formed s'"
  by (simp add: sets_well_formed_def)

lemma wf_create: "sets_well_formed s \<Longrightarrow> sets_well_formed (snd (create_set name sel s))"
  by (simp add: sets_well_formed_def create_set_def Let_def distinct_update nonempty_update)

lemma wf_rename: "sets_well_formed s \<Longrightarrow> sets_well_formed (snd (rename_set old_name new_name s))"
  by (simp add: sets_well_formed_def rename_set_def distinct_move_key nonempty_move_key)

lemma wf_delete: "sets_well_formed s \<Longrightarrow> sets_well_formed (snd (delete_set name s))"
  by (simp add: sets_well_formed_def delete_set_def Let_def remove_set_from_group_def
        distinct_delete nonempty_delete)

lemma wf_set_parent:
  "sets_well_formed s \<Longrightarrow> set_parent c p s = Some (r, s') \<Longrightarrow> sets_well_formed s'"
  by (auto simp: sets_well_formed_def set_parent_def distinct_update
        split: if_splits option.splits bool.splits)

lemma sets_well_formed_kept:
  assumes "sets_well_formed s" and "exec h op s = Some s'"
  shows "sets_well_formed s'"
proof (cases op)
  case (CreateSet name sel)
  then show ?thesis using assms wf_create by auto
next
  case (RenameSet old_name new_name)
  then show ?thesis using assms wf_rename by auto
next
  case (DeleteSet name)
  then show ?thesis using assms wf_delete by auto
next
  case (SetParent c p)
  then show ?thesis using assms wf_set_parent by auto
next
  case (ImportSets file_path fs)
  then show ?thesis using assms well_formed_import by auto
qed (use assms in \<open>auto intro!: well_formed_unchanged [of _ s] simp: plain_op_defs Let_def
      split: if_splits option.splits\<close>)

lemma listed_once_if_single_membership:
  assumes "single_membership s"
  shows "listed_once x s"
proof -
  have "distinct (grouped gs) \<Longrightarrow> list_all (\<lambda>(g, members). count_list members x \<le> 1) gs" for gs
  proof (induction gs)
    case Nil
    then show ?case by simp
  next
    case (Cons e gs)
    obtain k l where e: "e = (k, l)" by (cases e)
    have "distinct l" using Cons.prems e by simp
    then have "count_list l x \<le> 1" by (induction l) (auto simp: count_list_0_iff)
    then show ?case using Cons e by simp
  qed
  then show ?thesis using assms by (simp add: single_membership_def listed_once_def)
qed

end
